theory Spec2Isabelle
  imports Main "HOL-Library.Sublist"
begin

section \<open>Mini search engine: crawler, indexer and searcher\<close>

text \<open>
  A shallow embedding of the three Python modules \<^verbatim>\<open>crawler.py\<close>, \<^verbatim>\<open>indexer.py\<close> and
  \<^verbatim>\<open>searcher.py\<close>. Each method becomes a function over an explicit record of the object's
  fields. What the modules import from libraries or reach over the network is an explicit
  argument:
  \<^item> \<open>word_tokenize\<close>, NLTK's tokenizer, a function from a text to its tokens;
  \<^item> \<open>stopwords_english\<close>, NLTK's English stop word list;
  \<^item> \<open>set_iter\<close>, the order in which CPython iterates over a set of integers;
  \<^item> a record \<open>world\<close> of the crawler's network and parsing calls.

  Python strings are modelled as \<open>string\<close>, a \<open>char\<close> being a code point below 256;
  Python integers as \<open>int\<close>; a \<open>dict\<close> as an association list in insertion order.
\<close>

subsection \<open>Characters and strings\<close>

definition ord :: "char \<Rightarrow> nat" where
  "ord c = of_char c"

definition chr :: "nat \<Rightarrow> char" where
  "chr n = char_of n"

text \<open>
  \<^verbatim>\<open>str.isspace\<close> on one character, which is also what \<^verbatim>\<open>\s\<close> matches in a \<^verbatim>\<open>str\<close> pattern:
  the code points 9 to 13, 28 to 32, 133 and 160 (below 256).
\<close>

definition py_isspace :: "char \<Rightarrow> bool" where
  "py_isspace c =
     (let n = ord c in (9 \<le> n \<and> n \<le> 13) \<or> (28 \<le> n \<and> n \<le> 32) \<or> n = 133 \<or> n = 160)"

text \<open>
  \<^verbatim>\<open>str.lower\<close>: below 256 the upper case letters are \<^verbatim>\<open>A\<close> to \<^verbatim>\<open>Z\<close> and the code points
  192 to 222 without 215, and each has its lower case form 32 places further.
\<close>

definition lower_char :: "char \<Rightarrow> char" where
  "lower_char c =
     (let n = ord c
      in if (65 \<le> n \<and> n \<le> 90) \<or> (192 \<le> n \<and> n \<le> 222 \<and> n \<noteq> 215) then chr (n + 32) else c)"

definition lower :: "string \<Rightarrow> string" where
  "lower s = map lower_char s"

text \<open>The character class \<^verbatim>\<open>[a-z0-9\s]\<close>, whose complement the regular expression deletes.\<close>

definition in_az09s :: "char \<Rightarrow> bool" where
  "in_az09s c =
     (let n = ord c in (97 \<le> n \<and> n \<le> 122) \<or> (48 \<le> n \<and> n \<le> 57) \<or> py_isspace c)"

text \<open>\<^verbatim>\<open>re.sub(r'[^a-z0-9\s]', '', text)\<close>: every character outside the class is removed.\<close>

definition re_sub_non_az09s :: "string \<Rightarrow> string" where
  "re_sub_non_az09s s = filter in_az09s s"

text \<open>\<^verbatim>\<open>str.strip()\<close>: white space is removed from both ends.\<close>

definition strip :: "string \<Rightarrow> string" where
  "strip s = rev (dropWhile py_isspace (rev (dropWhile py_isspace s)))"

text \<open>\<^verbatim>\<open>str.startswith\<close>.\<close>

definition startswith :: "string \<Rightarrow> string \<Rightarrow> bool" where
  "startswith s p = (take (length p) s = p)"

text \<open>
  \<^verbatim>\<open>str.split()\<close>: the maximal runs of characters that are not white space.
\<close>

fun split_acc :: "string \<Rightarrow> string \<Rightarrow> string list" where
  "split_acc cur [] = (if cur = [] then [] else [cur])"
| "split_acc cur (c # cs) =
     (if py_isspace c then (if cur = [] then split_acc [] cs else cur # split_acc [] cs)
      else split_acc (cur @ [c]) cs)"

definition split_ws :: "string \<Rightarrow> string list" where
  "split_ws s = split_acc [] s"

subsection \<open>The tokenizer of NLTK\<close>

text \<open>
  \<^verbatim>\<open>nltk.tokenize.word_tokenize\<close> on a text in which only the letters \<^verbatim>\<open>a\<close> to \<^verbatim>\<open>z\<close>, digits
  and white space are left, which is what both callers pass. Such a text has no sentence
  end and no punctuation, so of the rules of \<^verbatim>\<open>NLTKWordTokenizer\<close> only the contractions
  without an apostrophe apply (\<^verbatim>\<open>CONTRACTIONS2\<close>: \<^verbatim>\<open>\b(can)(not)\b\<close>, and likewise \<^verbatim>\<open>gimme\<close>,
  \<^verbatim>\<open>gonna\<close>, \<^verbatim>\<open>gotta\<close>, \<^verbatim>\<open>lemme\<close> and \<^verbatim>\<open>wanna\<close>). Each puts spaces around the two parts
  of such a word where it stands alone, and the text is then split with \<^verbatim>\<open>str.split()\<close>.
\<close>

definition contraction :: "string \<Rightarrow> string list" where
  "contraction word =
     (if word = ''cannot'' then [''can'', ''not'']
      else if word = ''gimme'' then [''gim'', ''me'']
      else if word = ''gonna'' then [''gon'', ''na'']
      else if word = ''gotta'' then [''got'', ''ta'']
      else if word = ''lemme'' then [''lem'', ''me'']
      else if word = ''wanna'' then [''wan'', ''na'']
      else [word])"

definition nltk_word_tokenize :: "string \<Rightarrow> string list" where
  "nltk_word_tokenize text = concat (map contraction (split_ws text))"

subsection \<open>Dictionaries\<close>

text \<open>
  A \<^verbatim>\<open>dict\<close> keeps its keys in insertion order: an association list. \<open>dict_set\<close> is
  \<^verbatim>\<open>d[k] = v\<close> (an existing key keeps its place), \<open>dict_get\<close> is \<^verbatim>\<open>d.get(k, default)\<close>.
\<close>

type_synonym ('k, 'v) dict = "('k \<times> 'v) list"

fun dict_get :: "('k, 'v) dict \<Rightarrow> 'k \<Rightarrow> 'v \<Rightarrow> 'v" where
  "dict_get [] k dflt = dflt"
| "dict_get ((k', v) # d) k dflt = (if k' = k then v else dict_get d k dflt)"

fun dict_set :: "('k, 'v) dict \<Rightarrow> 'k \<Rightarrow> 'v \<Rightarrow> ('k, 'v) dict" where
  "dict_set [] k v = [(k, v)]"
| "dict_set ((k', v') # d) k v = (if k' = k then (k, v) # d else (k', v') # dict_set d k v)"

definition dict_keys :: "('k, 'v) dict \<Rightarrow> 'k list" where
  "dict_keys d = map fst d"

definition dict_contains :: "('k, 'v) dict \<Rightarrow> 'k \<Rightarrow> bool" where
  "dict_contains d k = (k \<in> set (dict_keys d))"

text \<open>\<^verbatim>\<open>dict(pairs)\<close>: a later pair overwrites the value of an earlier one with its key.\<close>

definition dict_of_pairs :: "('k \<times> 'v) list \<Rightarrow> ('k, 'v) dict" where
  "dict_of_pairs pairs = fold (\<lambda>(k, v) d. dict_set d k v) pairs []"

subsection \<open>JSON: \<^verbatim>\<open>json.dump\<close> and \<^verbatim>\<open>json.load\<close>\<close>

text \<open>The white space of JSON: space, tab, line feed and carriage return.\<close>

definition json_ws :: "char \<Rightarrow> bool" where
  "json_ws c = (c = CHR '' '' \<or> c = CHR 0x09 \<or> c = CHR 0x0A \<or> c = CHR 0x0D)"

definition skip_ws :: "string \<Rightarrow> string" where
  "skip_ws s = dropWhile json_ws s"

text \<open>
  \<^verbatim>\<open>'\\u{0:04x}'.format(n)\<close> writes a code point as four lower case hexadecimal digits.
\<close>

definition hex_digit :: "nat \<Rightarrow> char" where
  "hex_digit n = (if n < 10 then chr (48 + n) else chr (87 + n))"

definition hex4 :: "nat \<Rightarrow> string" where
  "hex4 n = [hex_digit (n div 4096 mod 16), hex_digit (n div 256 mod 16),
             hex_digit (n div 16 mod 16), hex_digit (n mod 16)]"

text \<open>
  \<^verbatim>\<open>py_encode_basestring_ascii\<close>, the encoder of strings when \<^verbatim>\<open>ensure_ascii\<close> is set: the
  backslash, the quote and every character outside the range from the space to \<^verbatim>\<open>~\<close> are
  replaced, by the short escape of \<^verbatim>\<open>ESCAPE_DCT\<close> where there is one and by \<^verbatim>\<open>\uXXXX\<close>
  otherwise.
\<close>

definition escape_char :: "char \<Rightarrow> string" where
  "escape_char c =
     (if c = CHR 0x5C then [CHR 0x5C, CHR 0x5C]
      else if c = CHR 0x22 then [CHR 0x5C, CHR 0x22]
      else if c = CHR 0x08 then [CHR 0x5C, CHR ''b'']
      else if c = CHR 0x0C then [CHR 0x5C, CHR ''f'']
      else if c = CHR 0x0A then [CHR 0x5C, CHR ''n'']
      else if c = CHR 0x0D then [CHR 0x5C, CHR ''r'']
      else if c = CHR 0x09 then [CHR 0x5C, CHR ''t'']
      else if ord c < 32 \<or> 126 < ord c then [CHR 0x5C, CHR ''u''] @ hex4 (ord c)
      else [c])"

definition encode_basestring_ascii :: "string \<Rightarrow> string" where
  "encode_basestring_ascii s = CHR 0x22 # concat (map escape_char s) @ [CHR 0x22]"

text \<open>\<^verbatim>\<open>int.__repr__\<close>: the decimal digits, after a minus sign for a negative number.\<close>

fun decimal :: "nat \<Rightarrow> string" where
  "decimal n = (if n < 10 then [chr (48 + n)] else decimal (n div 10) @ [chr (48 + n mod 10)])"

declare decimal.simps [simp del]

definition intstr :: "int \<Rightarrow> string" where
  "intstr i = (if i < 0 then CHR ''-'' # decimal (nat (- i)) else decimal (nat i))"

text \<open>
  \<^verbatim>\<open>_iterencode_list\<close> and \<^verbatim>\<open>_iterencode_dict\<close> with \<^verbatim>\<open>indent=4\<close>, for a list of integers
  and for a dictionary from strings to such lists: every element and every item is on a
  line of its own, the items are separated by a comma, a key from its value by a colon and
  a space, and an empty container is written \<^verbatim>\<open>[]\<close> or \<^verbatim>\<open>{}\<close>.
\<close>

definition newline_indent :: "nat \<Rightarrow> string" where
  "newline_indent level = CHR 0x0A # replicate (4 * level) (CHR '' '')"

fun join :: "string \<Rightarrow> string list \<Rightarrow> string" where
  "join sep [] = []"
| "join sep [x] = x"
| "join sep (x # y # ys) = x @ sep @ join sep (y # ys)"

definition iterencode_list :: "nat \<Rightarrow> int list \<Rightarrow> string" where
  "iterencode_list level lst =
     (if lst = [] then ''[]''
      else ''['' @ newline_indent (level + 1) @
           join ('','' @ newline_indent (level + 1)) (map intstr lst) @
           newline_indent level @ '']'')"

definition encode_item :: "nat \<Rightarrow> string \<times> int list \<Rightarrow> string" where
  "encode_item level = (\<lambda>(key, v). encode_basestring_ascii key @ '': '' @ iterencode_list level v)"

definition iterencode_dict :: "nat \<Rightarrow> (string, int list) dict \<Rightarrow> string" where
  "iterencode_dict level dct =
     (if dct = [] then ''{}''
      else ''{'' @ newline_indent (level + 1) @
           join ('','' @ newline_indent (level + 1))
             (map (encode_item (level + 1)) dct) @
           newline_indent level @ ''}'')"

text \<open>\<^verbatim>\<open>json.dump(obj, f, indent=4)\<close>: the text that is written to the file.\<close>

definition json_dump :: "(string, int list) dict \<Rightarrow> string" where
  "json_dump obj = iterencode_dict 0 obj"

text \<open>
  The decoder, \<^verbatim>\<open>json.load\<close>, on documents that are an object whose values are arrays of
  integers: the result is \<open>None\<close> when the decoder raises \<^verbatim>\<open>JSONDecodeError\<close>, and also for
  a document of another shape (another kind of value, a number with a fraction or an
  exponent, a code point above 255), which is no index of this program.

  \<^verbatim>\<open>scanstring\<close> reads a string from behind its opening quote, in strict mode: up to the
  closing quote, with the escapes of \<^verbatim>\<open>BACKSLASH\<close> and \<^verbatim>\<open>\uXXXX\<close> (four hexadecimal
  digits), and it refuses a control character.
\<close>

definition hex_value :: "char \<Rightarrow> nat option" where
  "hex_value c =
     (let n = ord c
      in if 48 \<le> n \<and> n \<le> 57 then Some (n - 48)
         else if 97 \<le> n \<and> n \<le> 102 then Some (n - 87)
         else if 65 \<le> n \<and> n \<le> 70 then Some (n - 55)
         else None)"

definition decode_uXXXX :: "char \<Rightarrow> char \<Rightarrow> char \<Rightarrow> char \<Rightarrow> nat option" where
  "decode_uXXXX a b c d =
     (case (hex_value a, hex_value b, hex_value c, hex_value d) of
        (Some x3, Some x2, Some x1, Some x0) \<Rightarrow> Some (4096 * x3 + 256 * x2 + 16 * x1 + x0)
      | _ \<Rightarrow> None)"

definition backslash :: "char \<Rightarrow> char option" where
  "backslash e =
     (if e = CHR 0x22 then Some (CHR 0x22)
      else if e = CHR 0x5C then Some (CHR 0x5C)
      else if e = CHR ''/'' then Some (CHR ''/'')
      else if e = CHR ''b'' then Some (CHR 0x08)
      else if e = CHR ''f'' then Some (CHR 0x0C)
      else if e = CHR ''n'' then Some (CHR 0x0A)
      else if e = CHR ''r'' then Some (CHR 0x0D)
      else if e = CHR ''t'' then Some (CHR 0x09)
      else None)"

definition prepend :: "char \<Rightarrow> (string \<times> string) option \<Rightarrow> (string \<times> string) option" where
  "prepend c r = map_option (\<lambda>(s, rest). (c # s, rest)) r"

fun scanstring :: "string \<Rightarrow> (string \<times> string) option" where
  "scanstring [] = None"
| "scanstring (c # cs) =
     (if c = CHR 0x22 then Some ([], cs)
      else if c = CHR 0x5C then
        (case cs of
           [] \<Rightarrow> None
         | e # cs' \<Rightarrow>
             if e = CHR ''u'' then
               (case cs' of
                  h3 # h2 # h1 # h0 # rest \<Rightarrow>
                    (case decode_uXXXX h3 h2 h1 h0 of
                       None \<Rightarrow> None
                     | Some uni \<Rightarrow> if uni < 256 then prepend (chr uni) (scanstring rest) else None)
                | _ \<Rightarrow> None)
             else (case backslash e of
                     None \<Rightarrow> None
                   | Some ch \<Rightarrow> prepend ch (scanstring cs')))
      else if ord c < 32 then None
      else prepend c (scanstring cs))"

text \<open>
  \<^verbatim>\<open>NUMBER_RE\<close>: an optional minus sign, then \<^verbatim>\<open>0\<close> or a digit from 1 to 9 followed by
  digits. A fraction or an exponent behind it makes the number a float.
\<close>

definition is_digit :: "char \<Rightarrow> bool" where
  "is_digit c = (48 \<le> ord c \<and> ord c \<le> 57)"

definition decimal_value :: "string \<Rightarrow> nat" where
  "decimal_value ds = fold (\<lambda>c acc. 10 * acc + (ord c - 48)) ds 0"

definition frac_or_exp :: "string \<Rightarrow> bool" where
  "frac_or_exp s =
     (case s of
        [] \<Rightarrow> False
      | c # r \<Rightarrow>
          if c = CHR ''.'' then (case r of [] \<Rightarrow> False | d # _ \<Rightarrow> is_digit d)
          else if c = CHR ''e'' \<or> c = CHR ''E'' then
            (case r of
               [] \<Rightarrow> False
             | d # r' \<Rightarrow>
                 is_digit d \<or>
                 ((d = CHR ''+'' \<or> d = CHR ''-'') \<and> (case r' of [] \<Rightarrow> False | d' # _ \<Rightarrow> is_digit d')))
          else False)"

definition match_integer :: "string \<Rightarrow> (string \<times> string) option" where
  "match_integer s =
     (case s of
        [] \<Rightarrow> None
      | c # cs \<Rightarrow>
          if c = CHR ''0'' then Some ([c], cs)
          else if is_digit c then Some (takeWhile is_digit s, dropWhile is_digit s)
          else None)"

definition scan_int :: "string \<Rightarrow> (int \<times> string) option" where
  "scan_int s =
     (let neg = (s \<noteq> [] \<and> hd s = CHR ''-'');
          s = (if neg then tl s else s)
      in case match_integer s of
           None \<Rightarrow> None
         | Some (ds, rest) \<Rightarrow>
             if frac_or_exp rest then None
             else Some (if neg then - int (decimal_value ds) else int (decimal_value ds), rest))"

text \<open>
  \<^verbatim>\<open>JSONArray\<close>, from behind the opening bracket: white space, then the closing bracket or
  the loop over the values, each followed by a comma or by the closing bracket. The loop
  ends because every value takes at least one character.
\<close>

lemma skip_ws_length: "length (skip_ws s) \<le> length s"
  by (simp add: skip_ws_def length_dropWhile_le)

lemma match_integer_length: "match_integer s = Some (ds, rest) \<Longrightarrow> length rest < length s"
proof (cases s)
  case Nil
  then show "match_integer s = Some (ds, rest) \<Longrightarrow> length rest < length s"
    by (simp add: match_integer_def)
next
  case (Cons c cs)
  assume m: "match_integer s = Some (ds, rest)"
  show "length rest < length s"
  proof (cases "c = CHR ''0''")
    case True
    with m Cons show ?thesis
      by (simp add: match_integer_def)
  next
    case False
    with m Cons have "is_digit c" and "rest = dropWhile is_digit cs"
      by (auto simp: match_integer_def split: if_splits)
    then show ?thesis
      using Cons length_dropWhile_le [of is_digit cs] by simp
  qed
qed

lemma scan_int_length: "scan_int s = Some (v, rest) \<Longrightarrow> length rest < length s"
proof -
  assume a: "scan_int s = Some (v, rest)"
  let ?s = "if s \<noteq> [] \<and> hd s = CHR ''-'' then tl s else s"
  from a obtain ds where "match_integer ?s = Some (ds, rest)"
    by (auto simp: scan_int_def Let_def split: option.splits if_splits)
  then have "length rest < length ?s"
    by (rule match_integer_length)
  also have "length ?s \<le> length s"
    by simp
  finally show ?thesis .
qed

function array_loop :: "int list \<Rightarrow> string \<Rightarrow> (int list \<times> string) option" where
  "array_loop vals s =
     (case scan_int s of
        None \<Rightarrow> None
      | Some (v, s1) \<Rightarrow>
          (case skip_ws s1 of
             [] \<Rightarrow> None
           | c # s2 \<Rightarrow>
               if c = CHR '']'' then Some (vals @ [v], s2)
               else if c \<noteq> CHR '','' then None
               else array_loop (vals @ [v]) (skip_ws s2)))"
  by pat_completeness auto
termination
proof (relation "measure (\<lambda>(vals, s). length s)")
  show "wf (measure (\<lambda>(vals, s). length s))"
    by simp
next
  fix vals :: "int list" and s s1 s2 :: string and x :: "int \<times> string" and v :: int and c :: char
  assume "scan_int s = Some x" and "(v, s1) = x" and "skip_ws s1 = c # s2"
  then have "length s1 < length s" and "length s2 < length (skip_ws s1)"
    using scan_int_length [of s v s1] by auto
  then have "length (skip_ws s2) < length s"
    using skip_ws_length [of s1] skip_ws_length [of s2] by linarith
  then show "((vals @ [v], skip_ws s2), (vals, s)) \<in> measure (\<lambda>(vals, s). length s)"
    by simp
qed

declare array_loop.simps [simp del]

definition JSONArray :: "string \<Rightarrow> (int list \<times> string) option" where
  "JSONArray s =
     (let s = skip_ws s
      in case s of
           [] \<Rightarrow> None
         | c # s' \<Rightarrow> if c = CHR '']'' then Some ([], s') else array_loop [] s)"

text \<open>
  \<^verbatim>\<open>JSONObject\<close>, from behind the opening brace: the closing brace, or the loop over the
  items, which starts behind the opening quote of a key; \<^verbatim>\<open>dict(pairs)\<close> at the end.
\<close>

lemma array_loop_length: "array_loop vals s = Some (r, rest) \<Longrightarrow> length rest < length s"
proof (induction vals s rule: array_loop.induct)
  case (1 vals s)
  from "1.prems" obtain v s1 where v: "scan_int s = Some (v, s1)"
    by (auto simp: array_loop.simps [of vals s] split: option.splits)
  then have l1: "length s1 < length s"
    by (rule scan_int_length)
  from "1.prems" v obtain c s2 where c: "skip_ws s1 = c # s2"
    by (auto simp: array_loop.simps [of vals s] split: list.splits)
  have l2: "length s2 < length s1"
    using skip_ws_length [of s1] c by simp
  show ?case
  proof (cases "c = CHR '']''")
    case True
    with "1.prems" v c have "rest = s2"
      by (simp add: array_loop.simps [of vals s])
    with l1 l2 show ?thesis
      by simp
  next
    case False
    with "1.prems" v c have comma: "c = CHR '',''"
      and rec: "array_loop (vals @ [v]) (skip_ws s2) = Some (r, rest)"
      by (auto simp: array_loop.simps [of vals s] split: if_splits)
    from "1.IH" [OF v refl c False _ rec] comma have "length rest < length (skip_ws s2)"
      by simp
    with l1 l2 skip_ws_length [of s2] show ?thesis
      by linarith
  qed
qed

lemma JSONArray_length: "JSONArray s = Some (r, rest) \<Longrightarrow> length rest < length s"
proof -
  assume a: "JSONArray s = Some (r, rest)"
  then obtain c s' where c: "skip_ws s = c # s'"
    by (auto simp: JSONArray_def Let_def split: list.splits)
  show ?thesis
  proof (cases "c = CHR '']''")
    case True
    with a c have "rest = s'"
      by (simp add: JSONArray_def Let_def)
    with c skip_ws_length [of s] show ?thesis
      by simp
  next
    case False
    with a c have "array_loop [] (skip_ws s) = Some (r, rest)"
      by (simp add: JSONArray_def Let_def)
    then have "length rest < length (skip_ws s)"
      by (rule array_loop_length)
    with skip_ws_length [of s] show ?thesis
      by linarith
  qed
qed

lemma prepend_length:
  "prepend c r = Some (k, rest) \<Longrightarrow> \<exists>k'. r = Some (k', rest)"
  by (cases r) (auto simp: prepend_def)

lemma scanstring_length: "scanstring s = Some (k, rest) \<Longrightarrow> length rest < length s"
proof (induction "length s" arbitrary: s k rule: less_induct)
  case less
  from less.prems obtain c cs where s: "s = c # cs"
    by (cases s) auto
  have rec: "length rest < length s"
    if "prepend ch (scanstring r) = Some (k, rest)" and "length r < length s" for ch r
  proof -
    from that(1) obtain k' where "scanstring r = Some (k', rest)"
      using prepend_length by blast
    with less.hyps [OF that(2)] that(2) show ?thesis
      by fastforce
  qed
  show ?case
  proof (cases "c = CHR 0x22")
    case True
    with less.prems s show ?thesis
      by simp
  next
    case quote: False
    show ?thesis
    proof (cases "c = CHR 0x5C")
      case False
      with quote less.prems s have "prepend c (scanstring cs) = Some (k, rest)"
        by (auto split: if_splits)
      with s rec [of c cs] show ?thesis
        by simp
    next
      case True
      with quote less.prems s obtain e cs' where cs: "cs = e # cs'"
        by (cases cs) auto
      show ?thesis
      proof (cases "e = CHR ''u''")
        case False
        with quote True s cs less.prems obtain ch where
          "prepend ch (scanstring cs') = Some (k, rest)"
          by (auto split: option.splits)
        with s cs rec [of ch cs'] show ?thesis
          by simp
      next
        case u: True
        with quote True s cs less.prems obtain h3 h2 h1 h0 r where
          r: "cs' = h3 # h2 # h1 # h0 # r"
          by (auto split: list.splits)
        with quote True s cs u less.prems obtain uni where
          "prepend (chr uni) (scanstring r) = Some (k, rest)"
          by (auto split: option.splits if_splits)
        with s cs r rec [of "chr uni" r] show ?thesis
          by simp
      qed
    qed
  qed
qed

function object_loop ::
    "(string \<times> int list) list \<Rightarrow> string \<Rightarrow> ((string \<times> int list) list \<times> string) option" where
  "object_loop pairs s =
     (case scanstring s of
        None \<Rightarrow> None
      | Some (key, s1) \<Rightarrow>
          (case skip_ws s1 of
             [] \<Rightarrow> None
           | c1 # s2 \<Rightarrow>
               if c1 \<noteq> CHR '':'' then None
               else (case skip_ws s2 of
                       [] \<Rightarrow> None
                     | c2 # s3 \<Rightarrow>
                         if c2 \<noteq> CHR ''['' then None
                         else (case JSONArray s3 of
                                 None \<Rightarrow> None
                               | Some (v, s4) \<Rightarrow>
                                   (case skip_ws s4 of
                                      [] \<Rightarrow> None
                                    | c3 # s5 \<Rightarrow>
                                        if c3 = CHR ''}'' then Some (pairs @ [(key, v)], s5)
                                        else if c3 \<noteq> CHR '','' then None
                                        else (case skip_ws s5 of
                                                [] \<Rightarrow> None
                                              | c4 # s6 \<Rightarrow>
                                                  if c4 \<noteq> CHR 0x22 then None
                                                  else object_loop (pairs @ [(key, v)]) s6))))))"
  by pat_completeness auto
termination
proof (relation "measure (\<lambda>(pairs, s). length s)")
  show "wf (measure (\<lambda>(pairs, s). length s))"
    by simp
next
  fix pairs :: "(string \<times> int list) list" and s s1 s2 s3 s4 s5 s6 key :: string
    and x :: "string \<times> string" and y :: "int list \<times> string" and v :: "int list"
    and c1 c2 c3 c4 :: char
  assume "scanstring s = Some x" and "(key, s1) = x" and "skip_ws s1 = c1 # s2"
    and "skip_ws s2 = c2 # s3" and "JSONArray s3 = Some y" and "(v, s4) = y"
    and "skip_ws s4 = c3 # s5" and "skip_ws s5 = c4 # s6"
  then have "length s1 < length s" "length s2 < length (skip_ws s1)"
    "length s3 < length (skip_ws s2)" "length s4 < length s3"
    "length s5 < length (skip_ws s4)" "length s6 < length (skip_ws s5)"
    using scanstring_length [of s key s1] JSONArray_length [of s3 v s4] by auto
  then have "length s6 < length s"
    using skip_ws_length [of s1] skip_ws_length [of s2] skip_ws_length [of s4]
      skip_ws_length [of s5] by linarith
  then show "((pairs @ [(key, v)], s6), (pairs, s)) \<in> measure (\<lambda>(pairs, s). length s)"
    by simp
qed

declare object_loop.simps [simp del]

definition JSONObject :: "string \<Rightarrow> ((string, int list) dict \<times> string) option" where
  "JSONObject s =
     (case skip_ws s of
        [] \<Rightarrow> None
      | c # s' \<Rightarrow>
          if c = CHR ''}'' then Some ([], s')
          else if c \<noteq> CHR 0x22 then None
          else map_option (\<lambda>(pairs, rest). (dict_of_pairs pairs, rest)) (object_loop [] s'))"

text \<open>
  \<^verbatim>\<open>json.load\<close>: white space, the value, white space, and nothing more (\<^verbatim>\<open>Extra data\<close>
  otherwise).
\<close>

definition json_load :: "string \<Rightarrow> (string, int list) dict option" where
  "json_load s =
     (case skip_ws s of
        [] \<Rightarrow> None
      | c # s \<Rightarrow>
          if c \<noteq> CHR ''{'' then None
          else (case JSONObject s of
                  None \<Rightarrow> None
                | Some (obj, rest) \<Rightarrow> if skip_ws rest = [] then Some obj else None))"

subsection \<open>The document store\<close>

text \<open>
  The table \<^verbatim>\<open>pages\<close>: \<^verbatim>\<open>id\<close> is the primary key, \<^verbatim>\<open>url\<close> is unique. The column
  \<^verbatim>\<open>crawled_at\<close> (a time stamp no function reads) is left out.
\<close>

record page =
  page_id :: int
  url :: string
  html_content :: string
  text_content :: string

type_synonym database = "page list"

text \<open>
  The exceptions that leave a method of the program: the \<^verbatim>\<open>OverflowError\<close> of a query of
  the store leaves \<^verbatim>\<open>search\<close>, and the \<^verbatim>\<open>ValueError\<close> of the URL parser leaves \<^verbatim>\<open>crawl\<close>.
\<close>

datatype error = OverflowError | ValueError

text \<open>
  The ids of the table are values of the type INTEGER of SQLite, signed integers of 64
  bits.
\<close>

definition sqlite_integer :: "int \<Rightarrow> bool" where
  "sqlite_integer i = (- (2 ^ 63) \<le> i \<and> i < 2 ^ 63)"

text \<open>
  \<^verbatim>\<open>SELECT ... FROM pages WHERE id = ?\<close> followed by \<^verbatim>\<open>fetchone()\<close>. The parameter is a
  Python integer, which has no bound; the module \<^verbatim>\<open>sqlite3\<close> binds it as an INTEGER, and
  \<^verbatim>\<open>execute\<close> raises \<^verbatim>\<open>OverflowError\<close> (Python int too large to convert to SQLite INTEGER)
  for an integer outside that range.
\<close>

definition find_page :: "database \<Rightarrow> int \<Rightarrow> page option" where
  "find_page db i = find (\<lambda>r. page_id r = i) db"

definition select_page :: "database \<Rightarrow> int \<Rightarrow> error + page option" where
  "select_page db i = (if sqlite_integer i then Inr (find_page db i) else Inl OverflowError)"

subsection \<open>Indexer\<close>

record Indexer =
  conn :: database
  stop_words :: "string set"
  inverted_index :: "(string, int list) dict"

definition Indexer_init :: "string list \<Rightarrow> database \<Rightarrow> Indexer" where
  "Indexer_init stopwords_english db =
     \<lparr>Indexer.conn = db, Indexer.stop_words = set stopwords_english,
      Indexer.inverted_index = []\<rparr>"

definition preprocess_text :: "(string \<Rightarrow> string list) \<Rightarrow> Indexer \<Rightarrow> string \<Rightarrow> string list" where
  "preprocess_text word_tokenize self text =
     (let text = lower text;
          text = re_sub_non_az09s text;
          tokens = word_tokenize text
      in filter (\<lambda>word. word \<notin> Indexer.stop_words self) tokens)"

text \<open>
  The body of the inner loop of \<^verbatim>\<open>build_index\<close>: a new word gets an empty posting list,
  and the document id is appended unless it is there already.
\<close>

definition add_posting :: "int \<Rightarrow> string \<Rightarrow> (string, int list) dict \<Rightarrow> (string, int list) dict" where
  "add_posting doc_id word idx =
     (let idx = (if \<not> dict_contains idx word then dict_set idx word [] else idx);
          postings = dict_get idx word []
      in if doc_id \<notin> set postings then dict_set idx word (postings @ [doc_id]) else idx)"

definition index_row :: "(string \<Rightarrow> string list) \<Rightarrow> Indexer \<Rightarrow> page \<Rightarrow> Indexer" where
  "index_row word_tokenize self row =
     (let processed_words = preprocess_text word_tokenize self (text_content row)
      in self\<lparr>Indexer.inverted_index :=
           fold (add_posting (page_id row)) processed_words (Indexer.inverted_index self)\<rparr>)"

definition build_index :: "(string \<Rightarrow> string list) \<Rightarrow> Indexer \<Rightarrow> Indexer" where
  "build_index word_tokenize self =
     fold (\<lambda>row self. index_row word_tokenize self row) (Indexer.conn self) self"

text \<open>\<^verbatim>\<open>save_index\<close>: the content of the index file.\<close>

definition save_index :: "Indexer \<Rightarrow> string" where
  "save_index self = json_dump (Indexer.inverted_index self)"

subsection \<open>Searcher\<close>

record Searcher =
  conn :: database
  inverted_index :: "(string, int list) dict"
  stop_words :: "string set"

definition Searcher_init :: "string list \<Rightarrow> database \<Rightarrow> (string, int list) dict \<Rightarrow> Searcher" where
  "Searcher_init stopwords_english db idx =
     \<lparr>Searcher.conn = db, Searcher.inverted_index = idx,
      Searcher.stop_words = set stopwords_english\<rparr>"

text \<open>
  \<^verbatim>\<open>Searcher.__init__\<close> on the content of the index file: \<open>None\<close> when the file is not
  loaded, and the object of \<open>Searcher_init\<close> with the loaded index otherwise.
\<close>

definition Searcher_open :: "string list \<Rightarrow> database \<Rightarrow> string \<Rightarrow> Searcher option" where
  "Searcher_open stopwords_english db index_file =
     (case json_load index_file of
        None \<Rightarrow> None
      | Some idx \<Rightarrow> Some (Searcher_init stopwords_english db idx))"

definition preprocess_query :: "(string \<Rightarrow> string list) \<Rightarrow> Searcher \<Rightarrow> string \<Rightarrow> string list" where
  "preprocess_query word_tokenize self query =
     (let query = lower query;
          query = re_sub_non_az09s query;
          tokens = word_tokenize query
      in filter (\<lambda>word. word \<notin> Searcher.stop_words self) tokens)"

text \<open>
  Lines 59 to 66 of \<^verbatim>\<open>search\<close>: the set of the first word's posting list, intersected with
  the posting list of every further word. An empty query has no first word; \<^verbatim>\<open>search\<close>
  returns before it gets here, and Python's \<^verbatim>\<open>IndexError\<close> handler returns the empty result.
\<close>

fun result_doc_ids :: "Searcher \<Rightarrow> string list \<Rightarrow> int set" where
  "result_doc_ids self [] = {}"
| "result_doc_ids self (first # rest) =
     fold (\<lambda>word acc. acc \<inter> set (dict_get (Searcher.inverted_index self) word []))
       rest (set (dict_get (Searcher.inverted_index self) first []))"

text \<open>
  Lines 74 to 78: \<^verbatim>\<open>doc_scores\<close> is a \<^verbatim>\<open>defaultdict(int)\<close>, and \<^verbatim>\<open>doc_scores[doc_id] += 1\<close>
  runs once for every word of the query.
\<close>

definition incr_score :: "int \<Rightarrow> (int, int) dict \<Rightarrow> (int, int) dict" where
  "incr_score doc_id doc_scores = dict_set doc_scores doc_id (dict_get doc_scores doc_id 0 + 1)"

definition doc_scores :: "int list \<Rightarrow> string list \<Rightarrow> (int, int) dict" where
  "doc_scores ids processed_query =
     fold (\<lambda>doc_id scores. fold (\<lambda>word. incr_score doc_id) processed_query scores) ids []"

text \<open>
  Line 81: \<^verbatim>\<open>sorted(keys, key=score, reverse=True)\<close>. Python's sort is stable also when
  reversed, so this is the stable sort by the negated score.
\<close>

definition sorted_doc_ids :: "(int, int) dict \<Rightarrow> int list" where
  "sorted_doc_ids scores = sort_key (\<lambda>x. - dict_get scores x 0) (dict_keys scores)"

text \<open>
  Lines 84 to 95, the loop over the ranked ids with the list \<^verbatim>\<open>results\<close> it appends to: one
  result for every id that has a row, none for an id that has not. No handler surrounds
  the query, so an exception of \<^verbatim>\<open>execute\<close> ends the loop and leaves \<^verbatim>\<open>search\<close>.
\<close>

definition title_snippet :: "string \<Rightarrow> string" where
  "title_snippet content = strip (take 100 content) @ ''...''"

fun fetch_results ::
  "database \<Rightarrow> int list \<Rightarrow> (string \<times> string) list \<Rightarrow> error + (string \<times> string) list" where
  "fetch_results db [] results = Inr results"
| "fetch_results db (doc_id # ids) results =
     (case select_page db doc_id of
        Inl e \<Rightarrow> Inl e
      | Inr None \<Rightarrow> fetch_results db ids results
      | Inr (Some row) \<Rightarrow>
          fetch_results db ids (results @ [(url row, title_snippet (text_content row))]))"

definition search ::
  "(string \<Rightarrow> string list) \<Rightarrow> (int set \<Rightarrow> int list) \<Rightarrow> Searcher \<Rightarrow> string \<Rightarrow>
     error + (string \<times> string) list" where
  "search word_tokenize set_iter self query =
     (let processed_query = preprocess_query word_tokenize self query
      in if processed_query = [] then Inr []
         else let ids = result_doc_ids self processed_query
              in if ids = {} then Inr []
                 else let scores = doc_scores (set_iter ids) processed_query
                      in fetch_results (Searcher.conn self) (sorted_doc_ids scores) [])"

subsection \<open>Crawler\<close>

text \<open>
  \<^verbatim>\<open>urllib.robotparser.RobotFileParser\<close>, as far as \<^verbatim>\<open>read()\<close> and \<^verbatim>\<open>can_fetch("*", url)\<close>
  go: the two flags, whether \<^verbatim>\<open>last_checked\<close> has been set (which \<^verbatim>\<open>parse\<close> does), and the
  answer of the parsed rules for the path of a URL (a file without a rule for the agent
  grants every path).
\<close>

record RobotFileParser =
  disallow_all :: bool
  allow_all :: bool
  last_checked :: bool
  entries :: "string \<Rightarrow> bool"

definition RobotFileParser_init :: RobotFileParser where
  "RobotFileParser_init =
     \<lparr>disallow_all = False, allow_all = False, last_checked = False,
      entries = (\<lambda>path. True)\<rparr>"

text \<open>
  What \<^verbatim>\<open>urlopen\<close> gives for a \<^verbatim>\<open>robots.txt\<close>: an exception that leaves \<^verbatim>\<open>read()\<close> (the host
  is not reached, the request times out; a body that is not UTF-8 leaves \<^verbatim>\<open>read()\<close> in the
  same way), an \<^verbatim>\<open>HTTPError\<close> with its status code, which \<^verbatim>\<open>read()\<close> handles itself, or a
  file, given by the rules parsed from it.
\<close>

datatype urlopen_result = URLError | HTTPError int | RobotsTxt "string \<Rightarrow> bool"

text \<open>
  What \<^verbatim>\<open>requests.get\<close> gives: an exception (of any class: both handlers of \<^verbatim>\<open>crawl\<close> do
  the same), or a response with its status code and its text.
\<close>

datatype response = RequestException | Response int string

text \<open>
  What the crawler calls outside itself. The network calls depend on when they are made:
  their first argument is the number of the loop iteration that makes them. \<open>None\<close>
  stands for a raised exception.
  \<^item> \<open>base_url\<close>: the scheme and network location that \<^verbatim>\<open>urlparse\<close> finds in a URL;
    \<^verbatim>\<open>urlparse\<close> raises \<^verbatim>\<open>ValueError\<close> for a malformed host in brackets;
  \<^item> \<open>urlopen\<close>: the request that \<^verbatim>\<open>rp.read()\<close> makes for the \<^verbatim>\<open>robots.txt\<close> of a site;
  \<^item> \<open>robots_path\<close>: the quoted path that \<^verbatim>\<open>rp.can_fetch\<close> compares with the rules; it
    unquotes the URL and calls \<^verbatim>\<open>urlparse\<close>, which can raise \<^verbatim>\<open>ValueError\<close>;
  \<^item> \<open>requests_get\<close>: the HTTP request;
  \<^item> \<open>get_text\<close>: \<^verbatim>\<open>BeautifulSoup(html, 'html.parser')\<close> and \<^verbatim>\<open>soup.get_text\<close>;
  \<^item> \<open>find_all_href\<close>: the \<^verbatim>\<open>href\<close> of every anchor of the page;
  \<^item> \<open>urljoin\<close>: the absolute form of a link found on a page.
\<close>

record world =
  base_url :: "string \<Rightarrow> string option"
  urlopen :: "nat \<Rightarrow> string \<Rightarrow> urlopen_result"
  robots_path :: "string \<Rightarrow> string option"
  requests_get :: "nat \<Rightarrow> string \<Rightarrow> response"
  get_text :: "string \<Rightarrow> string option"
  find_all_href :: "string \<Rightarrow> string list option"
  urljoin :: "string \<Rightarrow> string \<Rightarrow> string option"

record Crawler =
  conn :: database
  queue :: "string list"
  visited_urls :: "string set"
  robot_parsers :: "string \<rightharpoonup> RobotFileParser"

text \<open>\<^verbatim>\<open>CREATE TABLE IF NOT EXISTS\<close> keeps the rows of a database that is there already.\<close>

definition Crawler_init :: "database \<Rightarrow> string list \<Rightarrow> Crawler" where
  "Crawler_init db seed_urls =
     \<lparr>Crawler.conn = db, queue = seed_urls, visited_urls = {}, robot_parsers = Map.empty\<rparr>"

text \<open>
  \<^verbatim>\<open>RobotFileParser.read\<close>: \<open>None\<close> when it raises. An \<^verbatim>\<open>HTTPError\<close> is caught: the status
  codes 401 and 403 set \<^verbatim>\<open>disallow_all\<close>, the other codes from 400 to 499 set
  \<^verbatim>\<open>allow_all\<close>, and any other code leaves the parser as it was made.
\<close>

definition RobotFileParser_read ::
  "world \<Rightarrow> nat \<Rightarrow> string \<Rightarrow> RobotFileParser \<Rightarrow> RobotFileParser option" where
  "RobotFileParser_read w t site rp =
     (case urlopen w t site of
        URLError \<Rightarrow> None
      | HTTPError code \<Rightarrow>
          Some (if code = 401 \<or> code = 403 then rp\<lparr>disallow_all := True\<rparr>
                else if 400 \<le> code \<and> code < 500 then rp\<lparr>allow_all := True\<rparr>
                else rp)
      | RobotsTxt rules \<Rightarrow> Some (rp\<lparr>last_checked := True, entries := rules\<rparr>))"

text \<open>
  \<^verbatim>\<open>RobotFileParser.can_fetch\<close>: the flags are looked at first, then a parser that has not
  parsed a file answers \<^verbatim>\<open>False\<close>, and only then is the URL split and compared with the
  rules.
\<close>

definition RobotFileParser_can_fetch :: "world \<Rightarrow> RobotFileParser \<Rightarrow> string \<Rightarrow> error + bool" where
  "RobotFileParser_can_fetch w rp u =
     (if disallow_all rp then Inr False
      else if allow_all rp then Inr True
      else if \<not> last_checked rp then Inr False
      else (case robots_path w u of
              None \<Rightarrow> Inl ValueError
            | Some path \<Rightarrow> Inr (entries rp path)))"

text \<open>
  \<^verbatim>\<open>_can_fetch\<close>: the answer, or the exception that leaves the method, and the crawler with
  its cache of parsers. A parser is cached only when its \<^verbatim>\<open>read()\<close> has returned; when it
  raises, the answer is \<^verbatim>\<open>False\<close> and the cache is as it was. No handler surrounds
  \<^verbatim>\<open>urlparse\<close> or the \<^verbatim>\<open>can_fetch\<close> of the parser.
\<close>

definition can_fetch :: "world \<Rightarrow> nat \<Rightarrow> Crawler \<Rightarrow> string \<Rightarrow> (error + bool) \<times> Crawler" where
  "can_fetch w t self u =
     (case base_url w u of
        None \<Rightarrow> (Inl ValueError, self)
      | Some site \<Rightarrow>
          (case robot_parsers self site of
             Some rp \<Rightarrow> (RobotFileParser_can_fetch w rp u, self)
           | None \<Rightarrow>
               (case RobotFileParser_read w t site RobotFileParser_init of
                  None \<Rightarrow> (Inr False, self)
                | Some rp \<Rightarrow>
                    (RobotFileParser_can_fetch w rp u,
                     self\<lparr>robot_parsers := (robot_parsers self)(site \<mapsto> rp)\<rparr>))))"

text \<open>
  \<^verbatim>\<open>AUTOINCREMENT\<close>: one more than the largest id the table has held, which is the largest
  id of the table, as no row is ever deleted.
\<close>

definition next_id :: "database \<Rightarrow> int" where
  "next_id db = fold max (map page_id db) 0 + 1"

text \<open>
  \<^verbatim>\<open>INSERT INTO pages (url, html_content, text_content)\<close>. When the largest id is the
  largest 64-bit integer, no id is left and SQLite gives up before it looks at the row
  (\<^verbatim>\<open>OperationalError\<close>: database or disk is full); \<^verbatim>\<open>url TEXT UNIQUE\<close> makes the insert
  fail with an \<^verbatim>\<open>IntegrityError\<close> when the URL has a row.
\<close>

datatype sqlite_error = IntegrityError | OperationalError

definition insert_page :: "database \<Rightarrow> string \<Rightarrow> string \<Rightarrow> string \<Rightarrow> sqlite_error + database" where
  "insert_page db u html content =
     (if \<not> sqlite_integer (next_id db) then Inl OperationalError
      else if u \<in> url ` set db then Inl IntegrityError
      else Inr (db @ [\<lparr>page_id = next_id db, url = u, html_content = html,
                        text_content = content\<rparr>]))"

text \<open>
  \<^verbatim>\<open>_store_page\<close>: the \<^verbatim>\<open>IntegrityError\<close> is caught inside the method, which prints a line
  and returns as it does after an insert. Any other exception leaves the method: \<open>None\<close>.
\<close>

definition store_page :: "Crawler \<Rightarrow> string \<Rightarrow> string \<Rightarrow> string \<Rightarrow> Crawler option" where
  "store_page self u html content =
     (case insert_page (Crawler.conn self) u html content of
        Inl IntegrityError \<Rightarrow> Some self
      | Inl OperationalError \<Rightarrow> None
      | Inr db \<Rightarrow> Some (self\<lparr>Crawler.conn := db\<rparr>))"

text \<open>Lines 123 and 124 of \<^verbatim>\<open>crawl\<close>: what is done with one absolute link.\<close>

definition enqueue :: "Crawler \<Rightarrow> string \<Rightarrow> Crawler" where
  "enqueue self absolute_link =
     (if startswith absolute_link ''http'' then self\<lparr>queue := queue self @ [absolute_link]\<rparr>
      else self)"

text \<open>
  Lines 120 to 124: the loop over the anchors. An exception of \<^verbatim>\<open>urljoin\<close> leaves the loop
  (it is caught at the end of the iteration of \<^verbatim>\<open>crawl\<close>).
\<close>

fun enqueue_links :: "world \<Rightarrow> string \<Rightarrow> string list \<Rightarrow> Crawler \<Rightarrow> Crawler" where
  "enqueue_links w u [] self = self"
| "enqueue_links w u (href # hrefs) self =
     (case urljoin w u href of
        None \<Rightarrow> self
      | Some absolute_link \<Rightarrow> enqueue_links w u hrefs (enqueue self absolute_link))"

text \<open>
  The \<^verbatim>\<open>try\<close> statement of the loop body, on the pair of \<^verbatim>\<open>pages_crawled\<close> and the
  crawler: both handlers print and go on, so an exception leaves the pair as it is at the
  point where it is raised. \<^verbatim>\<open>pages_crawled += 1\<close> follows every call of \<^verbatim>\<open>_store_page\<close>
  that returns, whether the row was inserted or not. The pause of one second before the
  request changes nothing of the state.
\<close>

definition try_fetch :: "world \<Rightarrow> nat \<Rightarrow> string \<Rightarrow> int \<times> Crawler \<Rightarrow> int \<times> Crawler" where
  "try_fetch w t u s =
     (let pages_crawled = fst s; self = snd s
      in case requests_get w t u of
           RequestException \<Rightarrow> s
         | Response status_code html \<Rightarrow>
             if status_code \<noteq> 200 then s
             else (case get_text w html of
                     None \<Rightarrow> s
                   | Some content \<Rightarrow>
                       (case store_page self u html content of
                          None \<Rightarrow> s
                        | Some self \<Rightarrow>
                            let pages_crawled = pages_crawled + 1
                            in case find_all_href w html of
                                 None \<Rightarrow> (pages_crawled, self)
                               | Some hrefs \<Rightarrow> (pages_crawled, enqueue_links w u hrefs self))))"

text \<open>
  One iteration of the \<^verbatim>\<open>while\<close> loop of \<^verbatim>\<open>crawl\<close>, which runs it on a queue that is not
  empty: the exception that leaves \<^verbatim>\<open>crawl\<close> in this iteration, if there is one, and the
  pair of \<^verbatim>\<open>pages_crawled\<close> and the crawler at the end of the iteration or at the exception.
  The call of \<^verbatim>\<open>_can_fetch\<close> stands before the \<^verbatim>\<open>try\<close> statement, so what it raises leaves
  \<^verbatim>\<open>crawl\<close>. The lines that are printed are left out.
\<close>

definition crawl_step :: "world \<Rightarrow> nat \<Rightarrow> int \<times> Crawler \<Rightarrow> error option \<times> (int \<times> Crawler)" where
  "crawl_step w t s =
     (let pages_crawled = fst s; self = snd s
      in case queue self of
           [] \<Rightarrow> (None, s)
         | u # rest \<Rightarrow>
             let self = self\<lparr>queue := rest\<rparr>
             in if u \<in> visited_urls self then (None, (pages_crawled, self))
                else let (answer, self) = can_fetch w t self u
                     in case answer of
                          Inl e \<Rightarrow> (Some e, (pages_crawled, self))
                        | Inr allowed \<Rightarrow>
                            if \<not> allowed then (None, (pages_crawled, self))
                            else let self = self\<lparr>visited_urls := insert u (visited_urls self)\<rparr>
                                 in (None, try_fetch w t u (pages_crawled, self)))"

text \<open>The loop condition \<^verbatim>\<open>self.queue and pages_crawled < max_pages\<close>.\<close>

definition crawl_cond :: "int \<Rightarrow> int \<times> Crawler \<Rightarrow> bool" where
  "crawl_cond max_pages s = (queue (snd s) \<noteq> [] \<and> fst s < max_pages)"

text \<open>What the parts of an iteration leave as it is.\<close>

lemma enqueue_links_frame:
  "Crawler.conn (enqueue_links w u hrefs self) = Crawler.conn self \<and>
   visited_urls (enqueue_links w u hrefs self) = visited_urls self \<and>
   robot_parsers (enqueue_links w u hrefs self) = robot_parsers self"
  by (induction hrefs arbitrary: self) (auto simp: enqueue_def split: option.splits)

lemma can_fetch_frame:
  "Crawler.conn (snd (can_fetch w t self u)) = Crawler.conn self \<and>
   queue (snd (can_fetch w t self u)) = queue self \<and>
   visited_urls (snd (can_fetch w t self u)) = visited_urls self"
  by (simp add: can_fetch_def split: option.splits)

lemma store_page_frame:
  "store_page self u html content = Some self' \<Longrightarrow>
   queue self' = queue self \<and> visited_urls self' = visited_urls self \<and>
   robot_parsers self' = robot_parsers self"
  by (auto simp: store_page_def split: sum.splits sqlite_error.splits)

text \<open>
  The \<^verbatim>\<open>try\<close> statement either leaves everything as it is, or \<^verbatim>\<open>_store_page\<close> has returned
  and one is added to \<^verbatim>\<open>pages_crawled\<close>.
\<close>

lemma try_fetch_cases:
  "try_fetch w t u s = s \<or>
   (\<exists>html content self'.
      store_page (snd s) u html content = Some self' \<and>
      fst (try_fetch w t u s) = fst s + 1 \<and>
      Crawler.conn (snd (try_fetch w t u s)) = Crawler.conn self' \<and>
      visited_urls (snd (try_fetch w t u s)) = visited_urls (snd s) \<and>
      robot_parsers (snd (try_fetch w t u s)) = robot_parsers (snd s))"
proof (cases "requests_get w t u")
  case RequestException
  then show ?thesis
    by (simp add: try_fetch_def)
next
  case (Response status_code html)
  show ?thesis
  proof (cases "status_code = 200")
    case False
    with Response show ?thesis
      by (simp add: try_fetch_def)
  next
    case True
    show ?thesis
    proof (cases "get_text w html")
      case None
      with Response True show ?thesis
        by (simp add: try_fetch_def)
    next
      case (Some content)
      show ?thesis
      proof (cases "store_page (snd s) u html content")
        case None
        with Response True Some show ?thesis
          by (simp add: try_fetch_def)
      next
        case stored: (Some self')
        with Response True Some store_page_frame [OF stored] show ?thesis
          by (auto simp: try_fetch_def Let_def enqueue_links_frame split: option.splits)
      qed
    qed
  qed
qed

text \<open>
  An iteration either adds one to \<^verbatim>\<open>pages_crawled\<close>, or leaves it and makes the queue one
  shorter.
\<close>

lemma crawl_step_progress:
  assumes "queue (snd s) \<noteq> []"
  shows "fst (snd (crawl_step w t s)) = fst s + 1 \<or>
    (fst (snd (crawl_step w t s)) = fst s \<and>
     length (queue (snd (snd (crawl_step w t s)))) < length (queue (snd s)))"
proof -
  obtain u rest where q: "queue (snd s) = u # rest"
    using assms by (cases "queue (snd s)") auto
  obtain answer c where cf: "can_fetch w t (snd s\<lparr>queue := rest\<rparr>) u = (answer, c)"
    by (cases "can_fetch w t (snd s\<lparr>queue := rest\<rparr>) u")
  have qc: "queue c = rest"
    using can_fetch_frame [of w t "snd s\<lparr>queue := rest\<rparr>" u] cf by simp
  show ?thesis
    using q cf qc
      try_fetch_cases [of w t u "(fst s, c\<lparr>visited_urls := insert u (visited_urls c)\<rparr>)"]
    by (auto simp: crawl_step_def Let_def split: sum.splits)
qed

text \<open>
  The loop: it ends with the exception of an iteration, or when the condition fails.
\<close>

function crawl_loop ::
  "world \<Rightarrow> int \<Rightarrow> nat \<Rightarrow> int \<times> Crawler \<Rightarrow> error option \<times> (int \<times> Crawler)" where
  "crawl_loop w max_pages t s =
     (if crawl_cond max_pages s
      then (case crawl_step w t s of
              (Some e, s') \<Rightarrow> (Some e, s')
            | (None, s') \<Rightarrow> crawl_loop w max_pages (Suc t) s')
      else (None, s))"
  by pat_completeness auto
termination
proof (relation "measures [\<lambda>(w, max_pages, t, s). nat (max_pages - fst s),
                           \<lambda>(w, max_pages, t, s). length (queue (snd s))]")
  show "wf (measures [\<lambda>(w, max_pages, t, s). nat (max_pages - fst s),
                      \<lambda>(w, max_pages, t, s). length (queue (snd s))])"
    by simp
next
  fix w :: world and max_pages :: int and t :: nat and s s' :: "int \<times> Crawler"
    and raised :: "error option"
  assume c: "crawl_cond max_pages s" and step: "(raised, s') = crawl_step w t s"
  then have "queue (snd s) \<noteq> []" and "fst s < max_pages" and "s' = snd (crawl_step w t s)"
    by (simp_all add: crawl_cond_def flip: step)
  with crawl_step_progress [of s w t]
  show "((w, max_pages, Suc t, s'), (w, max_pages, t, s))
        \<in> measures [\<lambda>(w, max_pages, t, s). nat (max_pages - fst s),
                     \<lambda>(w, max_pages, t, s). length (queue (snd s))]"
    by auto
qed

declare crawl_loop.simps [simp del]

text \<open>
  \<^verbatim>\<open>crawl\<close> on a new \<^verbatim>\<open>Crawler\<close>: the exception that has left it, if there is one, and the
  value of \<^verbatim>\<open>pages_crawled\<close> and the crawler at that point or when the loop has ended.
\<close>

definition crawl ::
  "world \<Rightarrow> database \<Rightarrow> string list \<Rightarrow> int \<Rightarrow> error option \<times> (int \<times> Crawler)" where
  "crawl w db seed_urls max_pages = crawl_loop w max_pages 0 (0, Crawler_init db seed_urls)"

text \<open>
  The first \<open>n\<close> iterations of the loop body, whatever the loop condition says, up to the
  first that raises.
\<close>

fun crawl_steps ::
  "world \<Rightarrow> nat \<Rightarrow> nat \<Rightarrow> int \<times> Crawler \<Rightarrow> error option \<times> (int \<times> Crawler)" where
  "crawl_steps w t 0 s = (None, s)"
| "crawl_steps w t (Suc n) s =
     (case crawl_step w t s of
        (Some e, s') \<Rightarrow> (Some e, s')
      | (None, s') \<Rightarrow> crawl_steps w (Suc t) n s')"

section \<open>Reference definitions and examples\<close>

subsection \<open>The tokenizer in the words of the specification\<close>

definition ascii_letter :: "char \<Rightarrow> bool" where
  "ascii_letter c = (let n = ord c in (65 \<le> n \<and> n \<le> 90) \<or> (97 \<le> n \<and> n \<le> 122))"

definition ascii_digit :: "char \<Rightarrow> bool" where
  "ascii_digit c = (let n = ord c in 48 \<le> n \<and> n \<le> 57)"

text \<open>
  The specification's pipeline, step by step: lowercase the text; strip every character
  that is not an ASCII letter, digit, or whitespace; split on whitespace into tokens; drop
  the tokens of the stop word set.
\<close>

definition tokenize_spec :: "string set \<Rightarrow> string \<Rightarrow> string list" where
  "tokenize_spec stopword_set s =
     (let lowered = lower s;
          stripped = filter (\<lambda>c. ascii_letter c \<or> ascii_digit c \<or> py_isspace c) lowered;
          tokens = split_ws stripped
      in filter (\<lambda>t. t \<notin> stopword_set) tokens)"

text \<open>
  The same pipeline with one more step before the stop words are dropped: each of the six
  contractions is replaced by its two parts.
\<close>

definition tokenize_contractions :: "string set \<Rightarrow> string \<Rightarrow> string list" where
  "tokenize_contractions stopword_set s =
     (let lowered = lower s;
          stripped = filter (\<lambda>c. ascii_letter c \<or> ascii_digit c \<or> py_isspace c) lowered;
          tokens = split_ws stripped;
          parts = concat (map contraction tokens)
      in filter (\<lambda>t. t \<notin> stopword_set) parts)"

text \<open>
  The posting list of a term in the words of the specification: the list the index holds
  for it, and the empty list for a term the index does not hold.
\<close>

definition posting_list :: "(string, int list) dict \<Rightarrow> string \<Rightarrow> int list" where
  "posting_list idx w = (case map_of idx w of None \<Rightarrow> [] | Some l \<Rightarrow> l)"

text \<open>
  A deny-all policy: a parser that answers \<^verbatim>\<open>False\<close> for every URL. The status codes with
  which \<^verbatim>\<open>read()\<close> leaves such a parser are 401, 403 and those outside 400 to 499; a load
  is denied when it raises or gets such a status.
\<close>

definition denies_all :: "RobotFileParser \<Rightarrow> bool" where
  "denies_all rp = (disallow_all rp \<or> (\<not> allow_all rp \<and> \<not> last_checked rp))"

definition denying_status :: "int \<Rightarrow> bool" where
  "denying_status code = (code = 401 \<or> code = 403 \<or> code < 400 \<or> 500 \<le> code)"

definition load_denied :: "urlopen_result \<Rightarrow> bool" where
  "load_denied r =
     (case r of URLError \<Rightarrow> True | HTTPError code \<Rightarrow> denying_status code | RobotsTxt rules \<Rightarrow> False)"

text \<open>What follows a number in the output of \<open>json_dump\<close>: a comma or a line feed.\<close>

definition ends_number :: "string \<Rightarrow> bool" where
  "ends_number rest = (case rest of [] \<Rightarrow> False | c # _ \<Rightarrow> c = CHR '','' \<or> c = CHR 0x0A)"

subsection \<open>Example data\<close>

text \<open>
  The index of the documents 1 (cats and dogs are friends), 2 (cats hate water) and
  3 (dogs love parks), and a store that holds the rows of 2 and 3 only.
\<close>

definition example_stopwords :: "string list" where
  "example_stopwords = [''the'', ''is'', ''at'', ''and'', ''are'']"

definition example_pages :: database where
  "example_pages =
     [\<lparr>page_id = 2, url = ''http://a/2'', html_content = ''<p>cats hate water</p>'',
       text_content = '' cats hate water''\<rparr>,
      \<lparr>page_id = 3, url = ''http://a/3'', html_content = ''<p>dogs love parks</p>'',
       text_content = ''dogs love parks''\<rparr>]"

definition example_index :: "(string, int list) dict" where
  "example_index =
     [(''cats'', [1, 2]), (''dogs'', [1, 3]), (''friends'', [1]), (''hate'', [2]),
      (''water'', [2]), (''love'', [3]), (''parks'', [3])]"

definition example_searcher :: Searcher where
  "example_searcher = Searcher_init example_stopwords example_pages example_index"

text \<open>
  The table from which the index was built, and some of the English stop words of NLTK.
\<close>

definition indexed_pages :: database where
  "indexed_pages =
     [\<lparr>page_id = 1, url = ''http://a/1'', html_content = ''<p>cats and dogs are friends</p>'',
       text_content = ''Cats and dogs are friends''\<rparr>,
      \<lparr>page_id = 2, url = ''http://a/2'', html_content = ''<p>cats hate water</p>'',
       text_content = '' cats hate water''\<rparr>,
      \<lparr>page_id = 3, url = ''http://a/3'', html_content = ''<p>dogs love parks</p>'',
       text_content = ''dogs love parks''\<rparr>]"

definition english_stopwords :: "string list" where
  "english_stopwords =
     [''i'', ''the'', ''is'', ''at'', ''can'', ''not'', ''don'', ''don'' @ [CHR 0x27] @ ''t'']"

definition english_indexer :: Indexer where
  "english_indexer = Indexer_init english_stopwords []"

definition example_indexer :: Indexer where
  "example_indexer = Indexer_init example_stopwords example_pages"

text \<open>
  Worlds. In each \<^verbatim>\<open>urlparse\<close> rejects the URL \<^verbatim>\<open>http://[\<close>, and every page is served with
  status 200 and links to \<^verbatim>\<open>/next\<close> on its own site and to a \<^verbatim>\<open>mailto:\<close> address. In
  \<open>open_world\<close> every \<^verbatim>\<open>robots.txt\<close> is read and allows everything; in \<open>flaky_world\<close> the
  read raises in the first iteration of the loop only; in \<open>closed_world\<close> the read for the
  site \<^verbatim>\<open>http://a\<close> raises every time; in \<open>unavailable_world\<close> that site answers the
  request for its \<^verbatim>\<open>robots.txt\<close> with the status 503, and in \<open>missing_world\<close> with 404.
\<close>

definition open_world :: world where
  "open_world =
     \<lparr>base_url = (\<lambda>u. if u = ''http://['' then None else Some (take 8 u)),
      urlopen = (\<lambda>t site. RobotsTxt (\<lambda>path. True)),
      robots_path = (\<lambda>u. Some (drop 8 u)),
      requests_get = (\<lambda>t u. Response 200 (''page '' @ u)),
      get_text = (\<lambda>html. Some html),
      find_all_href = (\<lambda>html. Some [''/next'', ''mailto:x'']),
      urljoin = (\<lambda>u href. Some (if startswith href ''/'' then take 8 u @ href else href))\<rparr>"

definition flaky_world :: world where
  "flaky_world =
     open_world\<lparr>urlopen := (\<lambda>t site. if t = 0 then URLError else RobotsTxt (\<lambda>path. True))\<rparr>"

definition closed_world :: world where
  "closed_world =
     open_world\<lparr>urlopen :=
       (\<lambda>t site. if site = ''http://a'' then URLError else RobotsTxt (\<lambda>path. True))\<rparr>"

definition unavailable_world :: world where
  "unavailable_world =
     open_world\<lparr>urlopen :=
       (\<lambda>t site. if site = ''http://a'' then HTTPError 503 else RobotsTxt (\<lambda>path. True))\<rparr>"

definition missing_world :: world where
  "missing_world =
     open_world\<lparr>urlopen :=
       (\<lambda>t site. if site = ''http://a'' then HTTPError 404 else RobotsTxt (\<lambda>path. True))\<rparr>"

text \<open>A table left by an earlier run, and a crawler that has visited what it has queued.\<close>

definition stored_pages :: database where
  "stored_pages =
     [\<lparr>page_id = 1, url = ''http://a/1'', html_content = ''one'', text_content = ''one''\<rparr>,
      \<lparr>page_id = 9, url = ''http://a/9'', html_content = ''nine'', text_content = ''nine''\<rparr>]"

definition example_crawler :: Crawler where
  "example_crawler =
     \<lparr>Crawler.conn = [], queue = [''http://a/1''], visited_urls = {''http://a/1''},
      robot_parsers = Map.empty\<rparr>"

section \<open>Properties\<close>

subsection \<open>Tokenization\<close>

text \<open>
  C6. For every input string, the tokenization on the index-build path
  (\<^verbatim>\<open>Indexer._preprocess_text\<close>) and the tokenization on the query path
  (\<^verbatim>\<open>Searcher._preprocess_query\<close>) produce the same sequence of terms: both objects load
  the same stop word list and call the same tokenizer.
\<close>

theorem preprocess_text_eq_preprocess_query:
  "preprocess_text word_tokenize (Indexer_init stopwords_english db) s =
   preprocess_query word_tokenize (Searcher_init stopwords_english db' idx) s"
  by (simp add: preprocess_text_def preprocess_query_def Indexer_init_def Searcher_init_def)

text \<open>
  After \<open>lower\<close> no upper case ASCII letter is left, so the class \<^verbatim>\<open>[a-z0-9\s]\<close> of the code
  keeps what "ASCII letter, digit, or whitespace" keeps.
\<close>

lemma ord_lower_char_not_upper: "\<not> (65 \<le> ord (lower_char c) \<and> ord (lower_char c) \<le> 90)"
  by (auto simp: lower_char_def ord_def chr_def Let_def)

lemma keep_lower_char:
  "(ascii_letter (lower_char c) \<or> ascii_digit (lower_char c) \<or> py_isspace (lower_char c))
     = in_az09s (lower_char c)"
  using ord_lower_char_not_upper [of c]
  by (auto simp: ascii_letter_def ascii_digit_def in_az09s_def Let_def)

lemma strip_spec_eq_re_sub:
  "filter (\<lambda>c. ascii_letter c \<or> ascii_digit c \<or> py_isspace c) (lower s) =
     re_sub_non_az09s (lower s)"
  by (simp add: re_sub_non_az09s_def lower_def filter_map comp_def keep_lower_char)

text \<open>
  Lowercasing and stripping keep the white space of a text and turn no other character
  into white space, so the words of the result are the words of the text, each lowercased
  and stripped, without those of which nothing is left.
\<close>

lemma lower_char_space: "py_isspace c \<Longrightarrow> lower_char c = c"
  by (auto simp: py_isspace_def lower_char_def Let_def)

lemma lower_char_not_space: "\<not> py_isspace c \<Longrightarrow> \<not> py_isspace (lower_char c)"
  by (auto simp: py_isspace_def lower_char_def ord_def chr_def Let_def)

lemma split_acc_normalized:
  "split_acc (re_sub_non_az09s (lower cur)) (re_sub_non_az09s (lower cs)) =
     filter (\<lambda>t. t \<noteq> []) (map (\<lambda>w. re_sub_non_az09s (lower w)) (split_acc cur cs))"
proof (induction cs arbitrary: cur)
  case Nil
  then show ?case
    by (simp add: re_sub_non_az09s_def lower_def)
next
  case (Cons c cs)
  show ?case
  proof (cases "py_isspace c")
    case True
    then have "re_sub_non_az09s (lower (c # cs)) = c # re_sub_non_az09s (lower cs)"
      by (simp add: re_sub_non_az09s_def lower_def lower_char_space in_az09s_def)
    with True Cons.IH [of "[]"] show ?thesis
      by (simp add: re_sub_non_az09s_def lower_def)
  next
    case False
    then have ns: "\<not> py_isspace (lower_char c)"
      by (rule lower_char_not_space)
    have app: "re_sub_non_az09s (lower (cur @ [c])) =
        re_sub_non_az09s (lower cur) @ (if in_az09s (lower_char c) then [lower_char c] else [])"
      by (simp add: re_sub_non_az09s_def lower_def)
    show ?thesis
    proof (cases "in_az09s (lower_char c)")
      case True
      then have "re_sub_non_az09s (lower (c # cs)) = lower_char c # re_sub_non_az09s (lower cs)"
        by (simp add: re_sub_non_az09s_def lower_def)
      with False ns True app Cons.IH [of "cur @ [c]"] show ?thesis
        by simp
    next
      case drop: False
      then have "re_sub_non_az09s (lower (c # cs)) = re_sub_non_az09s (lower cs)"
        by (simp add: re_sub_non_az09s_def lower_def)
      with False drop app Cons.IH [of "cur @ [c]"] show ?thesis
        by simp
    qed
  qed
qed

lemma split_ws_normalized:
  "split_ws (re_sub_non_az09s (lower s)) =
     filter (\<lambda>t. t \<noteq> []) (map (\<lambda>w. re_sub_non_az09s (lower w)) (split_ws s))"
  using split_acc_normalized [of "[]" s] by (simp add: split_ws_def re_sub_non_az09s_def lower_def)

lemma concat_contraction_id:
  "\<forall>t\<in>set ws. contraction t = [t] \<Longrightarrow> concat (map contraction ws) = ws"
  by (induction ws) simp_all

text \<open>
  C7, corrected to what the code does. For every input string \<open>s\<close>, the tokenizer
  \<open>preprocess_text\<close> with the tokenizer of NLTK equals the reference pipeline with one
  more step: lowercase the text, strip every character that is not an ASCII letter, digit
  or white space, split on white space, replace each of the contractions \<^verbatim>\<open>cannot\<close>,
  \<^verbatim>\<open>gimme\<close>, \<^verbatim>\<open>gonna\<close>, \<^verbatim>\<open>gotta\<close>, \<^verbatim>\<open>lemme\<close> and \<^verbatim>\<open>wanna\<close> by its two parts, then drop the
  stop words. On an input without these six words it equals the reference pipeline
  itself. The empty input yields the empty sequence, and so does an input of whose words
  each, lowercased, stripped and split into its parts, leaves stop words only (or
  nothing): a stop word is compared with the stripped form of a word.
\<close>

theorem preprocess_text_splits_contractions:
  "preprocess_text nltk_word_tokenize self s =
     tokenize_contractions (Indexer.stop_words self) s \<and>
   ((\<forall>w\<in>set (split_ws s). contraction (re_sub_non_az09s (lower w)) = [re_sub_non_az09s (lower w)]) \<longrightarrow>
      preprocess_text nltk_word_tokenize self s = tokenize_spec (Indexer.stop_words self) s) \<and>
   preprocess_text nltk_word_tokenize self [] = [] \<and>
   ((\<forall>w\<in>set (split_ws s). \<forall>t\<in>set (contraction (re_sub_non_az09s (lower w))).
        t = [] \<or> t \<in> Indexer.stop_words self) \<longrightarrow>
      preprocess_text nltk_word_tokenize self s = [])"
proof -
  let ?n = "\<lambda>w. re_sub_non_az09s (lower w)"
  have words: "split_ws (?n s) = filter (\<lambda>t. t \<noteq> []) (map ?n (split_ws s))"
    by (rule split_ws_normalized)
  have 1: "preprocess_text nltk_word_tokenize self s =
      tokenize_contractions (Indexer.stop_words self) s"
    by (simp add: preprocess_text_def tokenize_contractions_def nltk_word_tokenize_def Let_def
        strip_spec_eq_re_sub)
  have 2: "preprocess_text nltk_word_tokenize self s = tokenize_spec (Indexer.stop_words self) s"
    if "\<forall>w\<in>set (split_ws s). contraction (?n w) = [?n w]"
  proof -
    from that have "\<forall>t\<in>set (split_ws (?n s)). contraction t = [t]"
      unfolding words by auto
    then have "concat (map contraction (split_ws (?n s))) = split_ws (?n s)"
      by (rule concat_contraction_id)
    then show ?thesis
      by (simp add: preprocess_text_def tokenize_spec_def nltk_word_tokenize_def Let_def
          strip_spec_eq_re_sub)
  qed
  have 3: "preprocess_text nltk_word_tokenize self [] = []"
    by (simp add: preprocess_text_def nltk_word_tokenize_def Let_def lower_def
        re_sub_non_az09s_def split_ws_def)
  have 4: "preprocess_text nltk_word_tokenize self s = []"
    if "\<forall>w\<in>set (split_ws s). \<forall>t\<in>set (contraction (?n w)). t = [] \<or> t \<in> Indexer.stop_words self"
  proof -
    have "t \<in> Indexer.stop_words self"
      if "w \<in> set (split_ws (?n s))" and "t \<in> set (contraction w)" for w t
    proof -
      from that(1) obtain w' where w': "w' \<in> set (split_ws s)" "w = ?n w'" "w \<noteq> []"
        unfolding words by auto
      from that(2) w'(3) have "t \<noteq> []"
        by (auto simp: contraction_def split: if_splits)
      with \<open>\<forall>w\<in>set (split_ws s). \<forall>t\<in>set (contraction (?n w)). t = [] \<or> t \<in> Indexer.stop_words self\<close>
        w'(1,2) that(2) show ?thesis
        by blast
    qed
    then show ?thesis
      by (auto simp: preprocess_text_def nltk_word_tokenize_def Let_def filter_empty_conv)
  qed
  from 1 2 3 4 show ?thesis
    by blast
qed

theorem preprocess_text_splits_contractions_witness:
  "preprocess_text nltk_word_tokenize english_indexer ''The Cat SAT.'' = [''cat'', ''sat''] \<and>
   tokenize_spec (Indexer.stop_words english_indexer) ''The Cat SAT.'' = [''cat'', ''sat''] \<and>
   preprocess_text nltk_word_tokenize english_indexer ''I wanna go, gimme 5!'' =
     [''wan'', ''na'', ''go'', ''gim'', ''me'', ''5''] \<and>
   tokenize_contractions (Indexer.stop_words english_indexer) ''I wanna go, gimme 5!'' =
     [''wan'', ''na'', ''go'', ''gim'', ''me'', ''5''] \<and>
   preprocess_text nltk_word_tokenize english_indexer ''The is; I CANNOT!'' = [] \<and>
   preprocess_text nltk_word_tokenize english_indexer [] = [] \<and>
   preprocess_text nltk_word_tokenize english_indexer (''Two CAF'' @ [CHR 0xC9, CHR 0xE9] @ ''S'') =
     [''two'', ''cafs'']"
proof -
  have cat: "tokenize_spec (Indexer.stop_words english_indexer) ''The Cat SAT.'' =
      [''cat'', ''sat'']"
    by code_simp
  have no_contraction: "\<forall>w\<in>set (split_ws ''The Cat SAT.'').
      contraction (re_sub_non_az09s (lower w)) = [re_sub_non_az09s (lower w)]"
    by code_simp
  have wanna: "tokenize_contractions (Indexer.stop_words english_indexer)
      ''I wanna go, gimme 5!'' = [''wan'', ''na'', ''go'', ''gim'', ''me'', ''5'']"
    by code_simp
  have only_stopwords: "\<forall>w\<in>set (split_ws ''The is; I CANNOT!'').
      \<forall>t\<in>set (contraction (re_sub_non_az09s (lower w))).
        t = [] \<or> t \<in> Indexer.stop_words english_indexer"
    by code_simp
  have 1: "preprocess_text nltk_word_tokenize english_indexer ''The Cat SAT.'' =
      [''cat'', ''sat'']"
    using preprocess_text_splits_contractions [of english_indexer "''The Cat SAT.''"]
      no_contraction cat by metis
  have 2: "preprocess_text nltk_word_tokenize english_indexer ''I wanna go, gimme 5!'' =
      [''wan'', ''na'', ''go'', ''gim'', ''me'', ''5'']"
    using preprocess_text_splits_contractions [of english_indexer "''I wanna go, gimme 5!''"]
      wanna by metis
  have 3: "preprocess_text nltk_word_tokenize english_indexer ''The is; I CANNOT!'' = []"
    using preprocess_text_splits_contractions [of english_indexer "''The is; I CANNOT!''"]
      only_stopwords by metis
  have 4: "preprocess_text nltk_word_tokenize english_indexer [] = []"
    using preprocess_text_splits_contractions [of english_indexer "[]"] by metis
  have 5: "preprocess_text nltk_word_tokenize english_indexer
      (''Two CAF'' @ [CHR 0xC9, CHR 0xE9] @ ''S'') = [''two'', ''cafs'']"
    by code_simp
  from 1 2 3 4 5 cat wanna show ?thesis
    by (intro conjI)
qed

text \<open>
  C7, against the sentence of the specification: the reference pipeline keeps the word
  \<^verbatim>\<open>cannot\<close>, and the tokenizer makes of it two stop words and returns nothing; and the
  input that consists of the stop word \<^verbatim>\<open>don't\<close> yields the token \<^verbatim>\<open>dont\<close>.
\<close>

theorem tokenizer_differs_from_reference_pipeline:
  "tokenize_spec (Indexer.stop_words english_indexer) ''cannot'' = [''cannot''] \<and>
   preprocess_text nltk_word_tokenize english_indexer ''cannot'' = [] \<and>
   tokenize_spec (Indexer.stop_words english_indexer) ''I wanna go'' = [''wanna'', ''go''] \<and>
   preprocess_text nltk_word_tokenize english_indexer ''I wanna go'' = [''wan'', ''na'', ''go''] \<and>
   ''don'' @ [CHR 0x27] @ ''t'' \<in> Indexer.stop_words english_indexer \<and>
   preprocess_text nltk_word_tokenize english_indexer (''don'' @ [CHR 0x27] @ ''t'') = [''dont'']"
  by code_simp


subsection \<open>Retrieval\<close>

lemma dict_get_map_of:
  "dict_get d k dflt = (case map_of d k of None \<Rightarrow> dflt | Some v \<Rightarrow> v)"
  by (induction d) auto

lemma fold_Int: "fold (\<lambda>w acc. acc \<inter> f w) ws S = S \<inter> (\<Inter>w\<in>set ws. f w)"
  by (induction ws arbitrary: S) auto

lemma result_doc_ids_Int:
  "q \<noteq> [] \<Longrightarrow>
   result_doc_ids self q = (\<Inter>w\<in>set q. set (dict_get (Searcher.inverted_index self) w []))"
  by (cases q) (auto simp: fold_Int)

text \<open>
  \<^verbatim>\<open>doc_scores[doc_id] += 1\<close>, once for every word of the query: the score of one document
  grows by the length of the query.
\<close>

lemma dict_get_dict_set_same: "dict_get (dict_set s d v) d dflt = v"
  by (induction s) auto

lemma dict_set_dict_set_same: "dict_set (dict_set s d v) d v' = dict_set s d v'"
  by (induction s) auto

lemma dict_set_new: "d \<notin> fst ` set s \<Longrightarrow> dict_set s d v = s @ [(d, v)]"
  by (induction s) auto

lemma dict_get_new: "d \<notin> fst ` set s \<Longrightarrow> dict_get s d dflt = dflt"
  by (induction s) auto

lemma fold_incr_score:
  "fold (\<lambda>word. incr_score d) q scores =
     (if q = [] then scores else dict_set scores d (dict_get scores d 0 + int (length q)))"
proof (induction q arbitrary: scores)
  case Nil
  then show ?case by simp
next
  case (Cons w q)
  have "fold (\<lambda>word. incr_score d) (w # q) scores =
      fold (\<lambda>word. incr_score d) q (incr_score d scores)"
    by simp
  also have "\<dots> = (if q = [] then incr_score d scores
      else dict_set (incr_score d scores) d
             (dict_get (incr_score d scores) d 0 + int (length q)))"
    by (rule Cons.IH)
  also have "\<dots> = dict_set scores d (dict_get scores d 0 + int (length (w # q)))"
    by (simp add: incr_score_def dict_get_dict_set_same dict_set_dict_set_same add.assoc)
  finally show ?case by simp
qed

lemma fold_scores:
  assumes "q \<noteq> []"
  shows "distinct ids \<Longrightarrow> set ids \<inter> fst ` set acc = {} \<Longrightarrow>
    fold (\<lambda>doc_id scores. fold (\<lambda>word. incr_score doc_id) q scores) ids acc =
      acc @ map (\<lambda>d. (d, int (length q))) ids"
proof (induction ids arbitrary: acc)
  case Nil
  then show ?case by simp
next
  case (Cons d ids)
  from Cons.prems have d: "d \<notin> fst ` set acc"
    by auto
  have step: "fold (\<lambda>word. incr_score d) q acc = acc @ [(d, int (length q))]"
    using assms d by (simp add: fold_incr_score dict_set_new dict_get_new)
  have "set ids \<inter> fst ` set (acc @ [(d, int (length q))]) = {}"
    using Cons.prems by auto
  with Cons.prems Cons.IH [of "acc @ [(d, int (length q))]"] step show ?case
    by simp
qed

lemma doc_scores_eq:
  "q \<noteq> [] \<Longrightarrow> distinct ids \<Longrightarrow> doc_scores ids q = map (\<lambda>d. (d, int (length q))) ids"
  using fold_scores [of q ids "[]"] by (simp add: doc_scores_def)

text \<open>A stable sort leaves a list whose keys are all equal as it is.\<close>

lemma sort_key_const: "(\<forall>x\<in>set xs. f x = c) \<Longrightarrow> sort_key f xs = xs"
proof (induction xs)
  case Nil
  then show ?case by simp
next
  case (Cons x xs)
  then have "sort_key f xs = xs"
    by simp
  moreover have "insort_key f x xs = x # xs"
    using Cons.prems by (cases xs) auto
  ultimately show ?case by simp
qed

lemma sorted_doc_ids_const: "sorted_doc_ids (map (\<lambda>d. (d, c)) ids) = ids"
proof -
  have "\<forall>x\<in>set ids. - dict_get (map (\<lambda>d. (d, c)) ids) x 0 = - c"
    by (auto simp: dict_get_map_of map_of_map_restrict)
  then have "sort_key (\<lambda>x. - dict_get (map (\<lambda>d. (d, c)) ids) x 0) ids = ids"
    by (rule sort_key_const)
  then show ?thesis
    by (simp add: sorted_doc_ids_def dict_keys_def comp_def)
qed

lemma fetch_results_eq:
  "fetch_results db ids results =
     (if list_all sqlite_integer ids
      then Inr (results @ map (\<lambda>row. (url row, title_snippet (text_content row)))
                  (List.map_filter (find_page db) ids))
      else Inl OverflowError)"
  by (induction ids arbitrary: results)
    (auto simp: select_page_def List.map_filter_simps split: option.splits)

text \<open>
  With a query that is not empty, \<open>search\<close> looks up the candidate ids in the order in
  which the set is iterated.
\<close>

lemma search_fetches_candidates:
  assumes "preprocess_query word_tokenize self query = q" and "q \<noteq> []"
    and "result_doc_ids self q = ids"
    and "set (set_iter ids) = ids" and "distinct (set_iter ids)"
  shows "search word_tokenize set_iter self query =
    fetch_results (Searcher.conn self) (set_iter ids) []"
proof (cases "ids = {}")
  case True
  with assms(4) have "set_iter ids = []"
    by simp
  with True assms(1-3) show ?thesis
    by (simp add: search_def Let_def)
next
  case False
  have "doc_scores (set_iter ids) q = map (\<lambda>d. (d, int (length q))) (set_iter ids)"
    using assms(2,5) by (rule doc_scores_eq)
  then have "sorted_doc_ids (doc_scores (set_iter ids) q) = set_iter ids"
    by (simp add: sorted_doc_ids_const)
  with False assms(1-3) show ?thesis
    by (simp add: search_def Let_def)
qed

text \<open>
  C1. For every index and every query that tokenizes to a sequence \<open>q\<close> of terms that is
  not empty, the set of candidate document ids that \<open>search\<close> computes is the intersection
  \<open>ids\<close> of the posting lists of the terms of \<open>q\<close>, where a term the index does not hold
  has the empty posting list. These are the ids that \<open>search\<close> looks up in the store, in
  the order in which the set is iterated, and its result is the list of the pairs of
  those that have a row. With a term in the query that the index does not hold the set
  is empty and \<open>search\<close> returns the empty list.
\<close>

theorem search_candidates_are_intersection:
  assumes "preprocess_query word_tokenize self query = q" and "q \<noteq> []"
    and "(\<Inter>w\<in>set q. set (posting_list (Searcher.inverted_index self) w)) = ids"
  shows "result_doc_ids self q = ids \<and>
    (set (set_iter ids) = ids \<and> distinct (set_iter ids) \<longrightarrow>
       search word_tokenize set_iter self query =
         fetch_results (Searcher.conn self) (set_iter ids) [] \<and>
       ((\<forall>d\<in>ids. sqlite_integer d) \<longrightarrow>
          search word_tokenize set_iter self query =
            Inr (map (\<lambda>row. (url row, title_snippet (text_content row)))
                   (List.map_filter (find_page (Searcher.conn self)) (set_iter ids))))) \<and>
    ((\<exists>w\<in>set q. map_of (Searcher.inverted_index self) w = None) \<longrightarrow>
       ids = {} \<and> search word_tokenize set_iter self query = Inr [])"
proof -
  have 1: "result_doc_ids self q = ids"
    using assms(2,3) by (simp add: result_doc_ids_Int posting_list_def dict_get_map_of)
  have 2: "search word_tokenize set_iter self query =
      fetch_results (Searcher.conn self) (set_iter ids) []"
    if "set (set_iter ids) = ids" "distinct (set_iter ids)"
    using search_fetches_candidates
      [where set_iter = set_iter and ids = ids, OF assms(1,2) 1 that] .
  have 3: "search word_tokenize set_iter self query =
      Inr (map (\<lambda>row. (url row, title_snippet (text_content row)))
             (List.map_filter (find_page (Searcher.conn self)) (set_iter ids)))"
    if "set (set_iter ids) = ids" "distinct (set_iter ids)" "\<forall>d\<in>ids. sqlite_integer d"
  proof -
    from that(1,3) have "list_all sqlite_integer (set_iter ids)"
      by (simp add: list_all_iff)
    with 2 [OF that(1,2)] show ?thesis
      by (simp add: fetch_results_eq)
  qed
  have 4: "ids = {}"
    if "w \<in> set q" and "map_of (Searcher.inverted_index self) w = None" for w
  proof -
    have "posting_list (Searcher.inverted_index self) w = []"
      using that(2) by (simp add: posting_list_def)
    with that(1) assms(3) show ?thesis
      by fastforce
  qed
  have 5: "search word_tokenize set_iter self query = Inr []" if "ids = {}"
    using that assms(1,2) 1 by (simp add: search_def Let_def)
  from 1 2 3 4 5 show ?thesis
    by blast
qed

theorem search_candidates_are_intersection_witness:
  "result_doc_ids example_searcher [''cats'', ''hate''] = {2} \<and>
   set (posting_list (Searcher.inverted_index example_searcher) ''cats'') = {1, 2} \<and>
   set (posting_list (Searcher.inverted_index example_searcher) ''hate'') = {2} \<and>
   search nltk_word_tokenize sorted_list_of_set example_searcher ''The cats HATE?'' =
     Inr [(''http://a/2'', ''cats hate water...'')] \<and>
   result_doc_ids example_searcher [''cats'', ''zebras''] = {} \<and>
   search nltk_word_tokenize sorted_list_of_set example_searcher ''The cats, the ZEBRAS!'' =
     Inr []"
proof -
  have q: "preprocess_query nltk_word_tokenize example_searcher ''The cats HATE?'' =
      [''cats'', ''hate'']"
    by code_simp
  have ne: "[''cats'', ''hate''] \<noteq> []"
    by simp
  have cats: "set (posting_list (Searcher.inverted_index example_searcher) ''cats'') = {1, 2}"
    by code_simp
  have hate: "set (posting_list (Searcher.inverted_index example_searcher) ''hate'') = {2}"
    by code_simp
  have ids: "(\<Inter>w\<in>set [''cats'', ''hate''].
      set (posting_list (Searcher.inverted_index example_searcher) w)) = {2}"
    using cats hate by simp
  have iter: "set (sorted_list_of_set {2 :: int}) = {2} \<and> distinct (sorted_list_of_set {2 :: int})"
    by simp
  have range: "\<forall>d\<in>{2 :: int}. sqlite_integer d"
    by (simp add: sqlite_integer_def)
  have rows: "map (\<lambda>row. (url row, title_snippet (text_content row)))
      (List.map_filter (find_page (Searcher.conn example_searcher)) (sorted_list_of_set {2})) =
      [(''http://a/2'', ''cats hate water...'')]"
    by code_simp
  have q': "preprocess_query nltk_word_tokenize example_searcher ''The cats, the ZEBRAS!'' =
      [''cats'', ''zebras'']"
    by code_simp
  have ne': "[''cats'', ''zebras''] \<noteq> []"
    by simp
  have absent: "\<exists>w\<in>set [''cats'', ''zebras''].
      map_of (Searcher.inverted_index example_searcher) w = None"
    by code_simp
  note found = search_candidates_are_intersection
      [where set_iter = sorted_list_of_set and ids = "{2}", OF q ne ids]
  from found have candidates: "result_doc_ids example_searcher [''cats'', ''hate''] = {2}"
    by (rule conjunct1)
  from found iter range
  have "search nltk_word_tokenize sorted_list_of_set example_searcher ''The cats HATE?'' =
      Inr (map (\<lambda>row. (url row, title_snippet (text_content row)))
             (List.map_filter (find_page (Searcher.conn example_searcher))
                (sorted_list_of_set {2})))"
    by blast
  with candidates rows
  have 1: "result_doc_ids example_searcher [''cats'', ''hate''] = {2} \<and>
      search nltk_word_tokenize sorted_list_of_set example_searcher ''The cats HATE?'' =
        Inr [(''http://a/2'', ''cats hate water...'')]"
    by (simp only: simp_thms)
  have 2: "result_doc_ids example_searcher [''cats'', ''zebras''] = {} \<and>
      search nltk_word_tokenize sorted_list_of_set example_searcher ''The cats, the ZEBRAS!'' =
        Inr []"
    using search_candidates_are_intersection
      [where set_iter = sorted_list_of_set, OF q' ne' refl] absent
    by blast
  from 1 2 cats hate show ?thesis
    by simp
qed

text \<open>
  C5. For every query whose tokenization \<open>q\<close> is not empty and whose candidate set \<open>ids\<close>
  is not empty, every candidate gets the score \<open>length q\<close>, the number of query terms; the
  sort by score therefore leaves the candidates in the order in which the set was
  iterated, and that is the order in which \<open>search\<close> fetches them.
\<close>

theorem every_candidate_scores_query_length:
  assumes "preprocess_query word_tokenize self query = q" and "q \<noteq> []"
    and "result_doc_ids self q = ids" and "ids \<noteq> {}"
    and "set (set_iter ids) = ids" and "distinct (set_iter ids)"
  shows "(\<forall>d\<in>ids. map_of (doc_scores (set_iter ids) q) d = Some (int (length q))) \<and>
    sorted_doc_ids (doc_scores (set_iter ids) q) = set_iter ids \<and>
    search word_tokenize set_iter self query =
      fetch_results (Searcher.conn self) (set_iter ids) []"
proof -
  have scores: "doc_scores (set_iter ids) q = map (\<lambda>d. (d, int (length q))) (set_iter ids)"
    using assms(2,6) by (rule doc_scores_eq)
  have "map_of (map (\<lambda>d. (d, int (length q))) (set_iter ids)) d = Some (int (length q))"
    if "d \<in> ids" for d
    using that assms(5) by (simp add: map_of_map_restrict)
  moreover have sorted: "sorted_doc_ids (doc_scores (set_iter ids) q) = set_iter ids"
    unfolding scores by (rule sorted_doc_ids_const)
  moreover have "search word_tokenize set_iter self query =
      fetch_results (Searcher.conn self) (sorted_doc_ids (doc_scores (set_iter ids) q)) []"
    using assms(1-4) by (simp add: search_def Let_def)
  ultimately show ?thesis
    by (simp add: scores)
qed

theorem every_candidate_scores_query_length_witness:
  "map_of (doc_scores [1, 2] [''cats'', ''cats'']) 1 = Some 2 \<and>
   map_of (doc_scores [1, 2] [''cats'', ''cats'']) 2 = Some 2 \<and>
   sorted_doc_ids (doc_scores [1, 2] [''cats'', ''cats'']) = [1, 2] \<and>
   search split_ws sorted_list_of_set example_searcher ''Cats? the cats!'' =
     fetch_results (Searcher.conn example_searcher) [1, 2] []"
proof -
  have q: "preprocess_query split_ws example_searcher ''Cats? the cats!'' = [''cats'', ''cats'']"
    by code_simp
  have ne: "[''cats'', ''cats''] \<noteq> []"
    by simp
  have ids: "result_doc_ids example_searcher [''cats'', ''cats''] = {1, 2}"
    by code_simp
  have ne_ids: "{1, 2 :: int} \<noteq> {}"
    by simp
  have iter: "sorted_list_of_set {1, 2 :: int} = [1, 2]"
    by code_simp
  have s: "set (sorted_list_of_set {1, 2 :: int}) = {1, 2}"
    by simp
  have d: "distinct (sorted_list_of_set {1, 2 :: int})"
    by simp
  from every_candidate_scores_query_length
    [where set_iter = sorted_list_of_set and ids = "{1, 2}", OF q ne ids ne_ids s d]
  show ?thesis
    by (simp add: iter)
qed

text \<open>
  The ids of a built index are ids of the rows of the table it was built from.
\<close>

lemma dict_set_subset: "set (dict_set d k v) \<subseteq> insert (k, v) (set d)"
proof (induction d)
  case Nil
  then show ?case
    by simp
next
  case (Cons kv d)
  then show ?case
    by (cases kv) auto
qed

lemma dict_get_cases: "dict_get d k dflt = dflt \<or> (k, dict_get d k dflt) \<in> set d"
proof (induction d)
  case Nil
  then show ?case
    by simp
next
  case (Cons kv d)
  then show ?case
    by (cases kv) auto
qed

lemma dict_set_ids:
  assumes "\<forall>l\<in>snd ` set d. set l \<subseteq> A" and "set v \<subseteq> A"
  shows "\<forall>l\<in>snd ` set (dict_set d k v). set l \<subseteq> A"
proof
  fix l
  assume "l \<in> snd ` set (dict_set d k v)"
  then obtain k' where "(k', l) \<in> set (dict_set d k v)"
    by auto
  with dict_set_subset [of d k v] have "(k', l) = (k, v) \<or> (k', l) \<in> set d"
    by blast
  then show "set l \<subseteq> A"
  proof
    assume "(k', l) = (k, v)"
    with assms(2) show ?thesis
      by simp
  next
    assume "(k', l) \<in> set d"
    then have "l \<in> snd ` set d"
      by force
    with assms(1) show ?thesis
      by blast
  qed
qed

lemma dict_get_ids:
  assumes "\<forall>l\<in>snd ` set d. set l \<subseteq> A"
  shows "set (dict_get d k []) \<subseteq> A"
proof -
  from dict_get_cases [of d k "[]"] show ?thesis
  proof
    assume "dict_get d k [] = []"
    then show ?thesis
      by simp
  next
    assume "(k, dict_get d k []) \<in> set d"
    then have "dict_get d k [] \<in> snd ` set d"
      by force
    with assms show ?thesis
      by blast
  qed
qed

lemma add_posting_ids:
  assumes "\<forall>l\<in>snd ` set idx. set l \<subseteq> A" and "doc_id \<in> A"
  shows "\<forall>l\<in>snd ` set (add_posting doc_id word idx). set l \<subseteq> A"
proof -
  define idx' where "idx' = (if \<not> dict_contains idx word then dict_set idx word [] else idx)"
  have 1: "\<forall>l\<in>snd ` set idx'. set l \<subseteq> A"
  proof (cases "dict_contains idx word")
    case True
    with assms(1) show ?thesis
      by (simp add: idx'_def)
  next
    case False
    have "\<forall>l\<in>snd ` set (dict_set idx word []). set l \<subseteq> A"
      using assms(1) by (rule dict_set_ids) simp
    with False show ?thesis
      by (simp add: idx'_def)
  qed
  have 2: "set (dict_get idx' word [] @ [doc_id]) \<subseteq> A"
    using dict_get_ids [OF 1, of word] assms(2) by simp
  have 3: "\<forall>l\<in>snd ` set (dict_set idx' word (dict_get idx' word [] @ [doc_id])). set l \<subseteq> A"
    using 1 2 by (rule dict_set_ids)
  have "add_posting doc_id word idx =
      (if doc_id \<notin> set (dict_get idx' word [])
       then dict_set idx' word (dict_get idx' word [] @ [doc_id]) else idx')"
    by (simp add: add_posting_def Let_def idx'_def)
  with 1 3 show ?thesis
    by presburger
qed

lemma fold_add_posting_ids:
  "\<forall>l\<in>snd ` set idx. set l \<subseteq> A \<Longrightarrow> doc_id \<in> A \<Longrightarrow>
   \<forall>l\<in>snd ` set (fold (add_posting doc_id) ws idx). set l \<subseteq> A"
proof (induction ws arbitrary: idx)
  case Nil
  then show ?case
    by simp
next
  case (Cons w ws)
  from Cons.prems have "\<forall>l\<in>snd ` set (add_posting doc_id w idx). set l \<subseteq> A"
    by (rule add_posting_ids)
  then have "\<forall>l\<in>snd ` set (fold (add_posting doc_id) ws (add_posting doc_id w idx)). set l \<subseteq> A"
    using Cons.prems(2) by (rule Cons.IH)
  then show ?case
    by simp
qed

lemma fold_index_row_ids:
  "\<forall>l\<in>snd ` set (Indexer.inverted_index self). set l \<subseteq> A \<Longrightarrow> page_id ` set rows \<subseteq> A \<Longrightarrow>
   \<forall>l\<in>snd ` set (Indexer.inverted_index
      (fold (\<lambda>row self. index_row word_tokenize self row) rows self)). set l \<subseteq> A"
proof (induction rows arbitrary: self)
  case Nil
  then show ?case
    by simp
next
  case (Cons row rows)
  from Cons.prems(2) have row: "page_id row \<in> A" and rows: "page_id ` set rows \<subseteq> A"
    by simp_all
  have "Indexer.inverted_index (index_row word_tokenize self row) =
      fold (add_posting (page_id row)) (preprocess_text word_tokenize self (text_content row))
        (Indexer.inverted_index self)"
    by (simp add: index_row_def Let_def)
  moreover have "\<forall>l\<in>snd ` set (fold (add_posting (page_id row))
      (preprocess_text word_tokenize self (text_content row)) (Indexer.inverted_index self)).
      set l \<subseteq> A"
    using Cons.prems(1) row by (rule fold_add_posting_ids)
  ultimately have "\<forall>l\<in>snd ` set (Indexer.inverted_index (index_row word_tokenize self row)).
      set l \<subseteq> A"
    by (simp only:)
  then have "\<forall>l\<in>snd ` set (Indexer.inverted_index
      (fold (\<lambda>row self. index_row word_tokenize self row) rows
         (index_row word_tokenize self row))). set l \<subseteq> A"
    using rows by (rule Cons.IH)
  then show ?case
    by simp
qed

lemma build_index_ids:
  "\<forall>l\<in>snd ` set (Indexer.inverted_index
      (build_index word_tokenize (Indexer_init stopwords_english db))). set l \<subseteq> page_id ` set db"
  unfolding build_index_def
  by (rule fold_index_row_ids) (simp_all add: Indexer_init_def)

lemma result_doc_ids_subset:
  assumes "q \<noteq> []" and "\<forall>l\<in>snd ` set (Searcher.inverted_index self). set l \<subseteq> A"
  shows "result_doc_ids self q \<subseteq> A"
proof -
  from assms(1) obtain first rest where q: "q = first # rest"
    by (cases q) auto
  have "result_doc_ids self q =
      (\<Inter>w\<in>set q. set (dict_get (Searcher.inverted_index self) w []))"
    using assms(1) by (rule result_doc_ids_Int)
  then have "result_doc_ids self q \<subseteq> set (dict_get (Searcher.inverted_index self) first [])"
    using q by auto
  with dict_get_ids [OF assms(2), of first] show ?thesis
    by simp
qed

text \<open>
  C10. For every index that the indexer has built from a table of pages, every store and
  every query, \<open>search\<close> returns one pair of URL and snippet for every candidate id that
  has a row in the store, in the order of the candidates, and nothing for a candidate id
  that has no row: such an id is left out, the remaining results are returned and no
  error is raised. The ids of a table are values of the type INTEGER of SQLite, so every
  id of the index can be bound in the query.
\<close>

theorem search_omits_ids_without_row:
  assumes "Searcher.inverted_index self =
      Indexer.inverted_index (build_index tokenizer (Indexer_init stopwords_english db))"
    and "\<forall>row\<in>set db. sqlite_integer (page_id row)"
    and "preprocess_query word_tokenize self query = q"
    and "result_doc_ids self q = ids"
    and "set (set_iter ids) = ids" and "distinct (set_iter ids)"
  shows "search word_tokenize set_iter self query =
    Inr (if q = [] then []
         else map (\<lambda>row. (url row, title_snippet (text_content row)))
                (List.map_filter (find_page (Searcher.conn self)) (set_iter ids)))"
proof (cases "q = []")
  case True
  with assms(3) show ?thesis
    by (simp add: search_def Let_def)
next
  case False
  have "\<forall>l\<in>snd ` set (Searcher.inverted_index self). set l \<subseteq> page_id ` set db"
    unfolding assms(1) by (rule build_index_ids)
  with False have "result_doc_ids self q \<subseteq> page_id ` set db"
    by (rule result_doc_ids_subset)
  then have "ids \<subseteq> page_id ` set db"
    by (simp only: assms(4))
  with assms(2,5) have "list_all sqlite_integer (set_iter ids)"
    by (auto simp: list_all_iff)
  with False search_fetches_candidates
    [where set_iter = set_iter and ids = ids, OF assms(3) False assms(4-6)] show ?thesis
    by (simp add: fetch_results_eq)
qed

theorem search_omits_ids_without_row_witness:
  "Searcher.inverted_index example_searcher =
     Indexer.inverted_index (build_index nltk_word_tokenize
       (Indexer_init example_stopwords indexed_pages)) \<and>
   find_page (Searcher.conn example_searcher) 1 = None \<and>
   result_doc_ids example_searcher [''cats''] = {1, 2} \<and>
   search nltk_word_tokenize sorted_list_of_set example_searcher ''the Cats'' =
     Inr [(''http://a/2'', ''cats hate water...'')]"
proof -
  have "Indexer.inverted_index (build_index nltk_word_tokenize
      (Indexer_init example_stopwords indexed_pages)) = example_index"
    by code_simp
  then have built: "Searcher.inverted_index example_searcher =
      Indexer.inverted_index (build_index nltk_word_tokenize
        (Indexer_init example_stopwords indexed_pages))"
    by (simp add: example_searcher_def Searcher_init_def)
  have table: "\<forall>row\<in>set indexed_pages. sqlite_integer (page_id row)"
    by (simp add: indexed_pages_def sqlite_integer_def)
  have q: "preprocess_query nltk_word_tokenize example_searcher ''the Cats'' = [''cats'']"
    by code_simp
  have ids: "result_doc_ids example_searcher [''cats''] = {1, 2}"
    by code_simp
  have iter: "sorted_list_of_set {1, 2 :: int} = [1, 2]"
    by code_simp
  have s: "set (sorted_list_of_set {1, 2 :: int}) = {1, 2}"
    by simp
  have d: "distinct (sorted_list_of_set {1, 2 :: int})"
    by simp
  have no_row: "find_page (Searcher.conn example_searcher) 1 = None"
    by code_simp
  have rows: "map (\<lambda>row. (url row, title_snippet (text_content row)))
      (List.map_filter (find_page (Searcher.conn example_searcher)) [1, 2]) =
      [(''http://a/2'', ''cats hate water...'')]"
    by code_simp
  from search_omits_ids_without_row
    [where set_iter = sorted_list_of_set and ids = "{1, 2}", OF built table q ids s d]
    built no_row ids rows
  show ?thesis
    by (simp add: iter)
qed

subsection \<open>The crawl loop\<close>

text \<open>An invariant of the loop body holds when the loop has ended or has been left.\<close>

lemma crawl_loop_invariant:
  "P s \<Longrightarrow> (\<And>t s. P s \<Longrightarrow> crawl_cond max_pages s \<Longrightarrow> P (snd (crawl_step w t s))) \<Longrightarrow>
   P (snd (crawl_loop w max_pages t s))"
proof (induction w max_pages t s rule: crawl_loop.induct)
  case (1 w max_pages t s)
  show ?case
  proof (cases "crawl_cond max_pages s")
    case False
    with "1.prems"(1) show ?thesis
      by (simp add: crawl_loop.simps [of w max_pages t s])
  next
    case True
    obtain raised s' where step: "crawl_step w t s = (raised, s')"
      by (cases "crawl_step w t s")
    from "1.prems" True have "P (snd (crawl_step w t s))"
      by simp
    with step have P': "P s'"
      by simp
    show ?thesis
    proof (cases raised)
      case None
      from "1.IH" [OF True step [symmetric] None P' "1.prems"(2)]
      have "P (snd (crawl_loop w max_pages (Suc t) s'))"
        by simp
      with True step None show ?thesis
        by (simp add: crawl_loop.simps [of w max_pages t s])
    next
      case (Some e)
      with True step P' show ?thesis
        by (simp add: crawl_loop.simps [of w max_pages t s])
    qed
  qed
qed

text \<open>
  The loop runs the body some number \<open>n\<close> of times: the condition holds before each of the
  \<open>n\<close> iterations, none but the last raises, and either the last raises or the condition
  fails after it.
\<close>

lemma crawl_loop_steps:
  "\<exists>n. crawl_loop w max_pages t s = crawl_steps w t n s \<and>
       (\<forall>k<n. fst (crawl_steps w t k s) = None \<and>
              crawl_cond max_pages (snd (crawl_steps w t k s))) \<and>
       (case fst (crawl_steps w t n s) of
          None \<Rightarrow> \<not> crawl_cond max_pages (snd (crawl_steps w t n s))
        | Some e \<Rightarrow> \<exists>k. n = Suc k \<and>
            crawl_step w (t + k) (snd (crawl_steps w t k s)) = crawl_steps w t n s)"
proof (induction w max_pages t s rule: crawl_loop.induct)
  case (1 w max_pages t s)
  show ?case
  proof (cases "crawl_cond max_pages s")
    case False
    then have "crawl_loop w max_pages t s = crawl_steps w t 0 s"
      by (simp add: crawl_loop.simps [of w max_pages t s])
    with False show ?thesis
      by (intro exI [of _ 0]) simp
  next
    case True
    obtain raised s' where step: "crawl_step w t s = (raised, s')"
      by (cases "crawl_step w t s")
    show ?thesis
    proof (cases raised)
      case (Some e)
      with True step have "crawl_loop w max_pages t s = crawl_steps w t (Suc 0) s"
        by (simp add: crawl_loop.simps [of w max_pages t s])
      with True step Some show ?thesis
        by (intro exI [of _ "Suc 0"]) simp
    next
      case None
      from "1.IH" [OF True step [symmetric] None] obtain n where n:
        "crawl_loop w max_pages (Suc t) s' = crawl_steps w (Suc t) n s'"
        "\<forall>k<n. fst (crawl_steps w (Suc t) k s') = None \<and>
               crawl_cond max_pages (snd (crawl_steps w (Suc t) k s'))"
        "case fst (crawl_steps w (Suc t) n s') of
           None \<Rightarrow> \<not> crawl_cond max_pages (snd (crawl_steps w (Suc t) n s'))
         | Some e \<Rightarrow> \<exists>k. n = Suc k \<and>
             crawl_step w (Suc t + k) (snd (crawl_steps w (Suc t) k s')) =
               crawl_steps w (Suc t) n s'"
        by blast
      have shift: "crawl_steps w t (Suc k) s = crawl_steps w (Suc t) k s'" for k
        using step None by simp
      have a: "crawl_loop w max_pages t s = crawl_steps w t (Suc n) s"
        using True step None n(1) by (simp add: crawl_loop.simps [of w max_pages t s])
      have b: "fst (crawl_steps w t k s) = None \<and> crawl_cond max_pages (snd (crawl_steps w t k s))"
        if "k < Suc n" for k
      proof (cases k)
        case 0
        with True show ?thesis
          by simp
      next
        case (Suc j)
        with that n(2) show ?thesis
          unfolding Suc shift by simp
      qed
      have c: "case fst (crawl_steps w t (Suc n) s) of
           None \<Rightarrow> \<not> crawl_cond max_pages (snd (crawl_steps w t (Suc n) s))
         | Some e \<Rightarrow> \<exists>k. Suc n = Suc k \<and>
             crawl_step w (t + k) (snd (crawl_steps w t k s)) = crawl_steps w t (Suc n) s"
      proof (cases "fst (crawl_steps w (Suc t) n s')")
        case None
        with n(3) show ?thesis
          unfolding shift by simp
      next
        case (Some e)
        with n(3) obtain j where j: "n = Suc j"
          "crawl_step w (Suc t + j) (snd (crawl_steps w (Suc t) j s')) =
             crawl_steps w (Suc t) n s'"
          by auto
        have "crawl_step w (t + n) (snd (crawl_steps w t n s)) = crawl_steps w t (Suc n) s"
          unfolding j(1) shift using j(2) by (simp add: j(1))
        with Some show ?thesis
          unfolding shift by simp
      qed
      from a b c show ?thesis
        by blast
    qed
  qed
qed

lemma crawl_cond_queue: "crawl_cond max_pages s \<Longrightarrow> \<exists>u rest. queue (snd s) = u # rest"
  by (cases "queue (snd s)") (auto simp: crawl_cond_def)

text \<open>What leaves \<^verbatim>\<open>_can_fetch\<close>, and with it \<^verbatim>\<open>crawl\<close>, is a \<^verbatim>\<open>ValueError\<close>.\<close>

lemma can_fetch_error: "fst (can_fetch w t self u) = Inl e \<Longrightarrow> e = ValueError"
  by (auto simp: can_fetch_def RobotFileParser_can_fetch_def split: option.splits if_splits)

lemma crawl_step_raises:
  assumes "fst (crawl_step w t s) = Some e"
  shows "\<exists>u rest. queue (snd s) = u # rest \<and> u \<notin> visited_urls (snd s) \<and>
    fst (can_fetch w t (snd s\<lparr>queue := rest\<rparr>) u) = Inl e"
proof (cases "queue (snd s)")
  case Nil
  with assms show ?thesis
    by (simp add: crawl_step_def)
next
  case (Cons u rest)
  obtain answer c where cf: "can_fetch w t (snd s\<lparr>queue := rest\<rparr>) u = (answer, c)"
    by (cases "can_fetch w t (snd s\<lparr>queue := rest\<rparr>) u")
  from assms Cons cf have "u \<notin> visited_urls (snd s) \<and> answer = Inl e"
    by (auto simp: crawl_step_def Let_def split: if_splits sum.splits)
  with Cons cf show ?thesis
    by simp
qed

text \<open>The table after \<^verbatim>\<open>_store_page\<close> depends on the table before it only.\<close>

lemma store_page_conn:
  "store_page self u html content = Some self' \<Longrightarrow>
   Crawler.conn self' =
     (if u \<in> url ` set (Crawler.conn self) then Crawler.conn self
      else Crawler.conn self @ [\<lparr>page_id = next_id (Crawler.conn self), url = u,
             html_content = html, text_content = content\<rparr>])"
  by (auto simp: store_page_def insert_page_def split: if_splits)

text \<open>
  What one iteration does to the counter, the table, the visited set and the cache of
  parsers: either the counter and the table stay, or the URL was new and allowed, it is
  now visited, the counter has grown by one and the table is as \<^verbatim>\<open>_store_page\<close> leaves it.
\<close>

lemma crawl_step_cases:
  fixes w :: world and t :: nat and s :: "int \<times> Crawler"
  assumes "queue (snd s) = u # rest"
  defines "cf \<equiv> can_fetch w t (snd s\<lparr>queue := rest\<rparr>) u"
  defines "s' \<equiv> snd (crawl_step w t s)"
  shows "(fst s' = fst s \<and> Crawler.conn (snd s') = Crawler.conn (snd s) \<and>
          visited_urls (snd s) \<subseteq> visited_urls (snd s') \<and>
          (robot_parsers (snd s') = robot_parsers (snd s) \<or>
           robot_parsers (snd s') = robot_parsers (snd cf))) \<or>
         (fst s' = fst s + 1 \<and> u \<notin> visited_urls (snd s) \<and> fst cf = Inr True \<and>
          (\<exists>html content.
             Crawler.conn (snd s') =
               (if u \<in> url ` set (Crawler.conn (snd s)) then Crawler.conn (snd s)
                else Crawler.conn (snd s) @ [\<lparr>page_id = next_id (Crawler.conn (snd s)),
                       url = u, html_content = html, text_content = content\<rparr>])) \<and>
          visited_urls (snd s') = insert u (visited_urls (snd s)) \<and>
          robot_parsers (snd s') = robot_parsers (snd cf))"
proof -
  obtain answer c where cf: "cf = (answer, c)"
    by (cases cf)
  have frame: "Crawler.conn c = Crawler.conn (snd s)" "visited_urls c = visited_urls (snd s)"
    using can_fetch_frame [of w t "snd s\<lparr>queue := rest\<rparr>" u] cf by (simp_all add: cf_def)
  let ?c = "c\<lparr>visited_urls := insert u (visited_urls c)\<rparr>"
  show ?thesis
  proof (cases "u \<in> visited_urls (snd s) \<or> answer \<noteq> Inr True")
    case True
    then show ?thesis
      using assms(1) cf frame
      by (auto simp: s'_def cf_def crawl_step_def Let_def split: sum.splits)
  next
    case False
    then have step: "s' = try_fetch w t u (fst s, ?c)"
      using assms(1) cf by (auto simp: s'_def cf_def crawl_step_def Let_def)
    from try_fetch_cases [of w t u "(fst s, ?c)"] show ?thesis
    proof
      assume "try_fetch w t u (fst s, ?c) = (fst s, ?c)"
      with step frame cf show ?thesis
        by auto
    next
      assume "\<exists>html content self'.
        store_page (snd (fst s, ?c)) u html content = Some self' \<and>
        fst (try_fetch w t u (fst s, ?c)) = fst (fst s, ?c) + 1 \<and>
        Crawler.conn (snd (try_fetch w t u (fst s, ?c))) = Crawler.conn self' \<and>
        visited_urls (snd (try_fetch w t u (fst s, ?c))) = visited_urls (snd (fst s, ?c)) \<and>
        robot_parsers (snd (try_fetch w t u (fst s, ?c))) = robot_parsers (snd (fst s, ?c))"
      then obtain html content self' where stored:
        "store_page ?c u html content = Some self'"
        "fst s' = fst s + 1"
        "Crawler.conn (snd s') = Crawler.conn self'"
        "visited_urls (snd s') = insert u (visited_urls c)"
        "robot_parsers (snd s') = robot_parsers c"
        using step by auto
      from store_page_conn [OF stored(1)] stored(3) frame
      have "Crawler.conn (snd s') =
          (if u \<in> url ` set (Crawler.conn (snd s)) then Crawler.conn (snd s)
           else Crawler.conn (snd s) @ [\<lparr>page_id = next_id (Crawler.conn (snd s)),
                  url = u, html_content = html, text_content = content\<rparr>])"
        by simp
      with False frame cf stored(2,4,5) show ?thesis
        by auto
    qed
  qed
qed

text \<open>The rows that were there stay, and the counter bounds the number of new rows.\<close>

lemma crawl_step_count:
  assumes "crawl_cond max_pages s"
    and "\<exists>new. Crawler.conn (snd s) = db @ new \<and> int (length new) \<le> fst s \<and>
           fst s \<le> max max_pages 0"
  shows "\<exists>new. Crawler.conn (snd (snd (crawl_step w t s))) = db @ new \<and>
    int (length new) \<le> fst (snd (crawl_step w t s)) \<and>
    fst (snd (crawl_step w t s)) \<le> max max_pages 0"
proof -
  from assms(1) obtain u rest where q: "queue (snd s) = u # rest"
    using crawl_cond_queue by blast
  from assms(1) have lt: "fst s < max_pages"
    by (simp add: crawl_cond_def)
  from assms(2) obtain new where new:
    "Crawler.conn (snd s) = db @ new" "int (length new) \<le> fst s"
    by blast
  let ?s' = "snd (crawl_step w t s)"
  from crawl_step_cases [OF q, of w t] show ?thesis
  proof (elim disjE conjE exE)
    fix html content
    assume "fst ?s' = fst s + 1"
      and "Crawler.conn (snd ?s') =
        (if u \<in> url ` set (Crawler.conn (snd s)) then Crawler.conn (snd s)
         else Crawler.conn (snd s) @ [\<lparr>page_id = next_id (Crawler.conn (snd s)),
                url = u, html_content = html, text_content = content\<rparr>])"
    then obtain new' where "Crawler.conn (snd ?s') = Crawler.conn (snd s) @ new'"
      "length new' \<le> 1" "fst ?s' = fst s + 1"
      by (cases "u \<in> url ` set (Crawler.conn (snd s))") auto
    then have "Crawler.conn (snd ?s') = db @ (new @ new')"
      and "int (length (new @ new')) \<le> fst ?s'"
      and "fst ?s' \<le> max max_pages 0"
      using new lt by auto
    then show ?thesis
      by blast
  qed (use new lt in auto)
qed

text \<open>From an empty table, every stored URL is a visited one and the counter is the number of rows.\<close>

lemma crawl_step_fresh:
  assumes "crawl_cond max_pages s"
    and "url ` set (Crawler.conn (snd s)) \<subseteq> visited_urls (snd s)"
    and "fst s = int (length (Crawler.conn (snd s)))"
  shows "url ` set (Crawler.conn (snd (snd (crawl_step w t s)))) \<subseteq>
      visited_urls (snd (snd (crawl_step w t s))) \<and>
    fst (snd (crawl_step w t s)) = int (length (Crawler.conn (snd (snd (crawl_step w t s)))))"
proof -
  from assms(1) obtain u rest where q: "queue (snd s) = u # rest"
    using crawl_cond_queue by blast
  let ?s' = "snd (crawl_step w t s)"
  from crawl_step_cases [OF q, of w t] show ?thesis
  proof (elim disjE conjE exE)
    fix html content
    assume a: "fst ?s' = fst s + 1" "u \<notin> visited_urls (snd s)"
      "Crawler.conn (snd ?s') =
        (if u \<in> url ` set (Crawler.conn (snd s)) then Crawler.conn (snd s)
         else Crawler.conn (snd s) @ [\<lparr>page_id = next_id (Crawler.conn (snd s)),
                url = u, html_content = html, text_content = content\<rparr>])"
      "visited_urls (snd ?s') = insert u (visited_urls (snd s))"
    from a(2) assms(2) have "u \<notin> url ` set (Crawler.conn (snd s))"
      by blast
    with a assms(2,3) show ?thesis
      by auto
  qed (use assms in auto)
qed

lemma enqueue_links_queue:
  "\<forall>href\<in>set hrefs. urljoin w u href \<noteq> None \<Longrightarrow>
   queue (enqueue_links w u hrefs self) =
     queue self @
       filter (\<lambda>l. startswith l ''http'') (map (\<lambda>href. the (urljoin w u href)) hrefs)"
  by (induction hrefs arbitrary: self) (auto simp: enqueue_def)

text \<open>
  C4, corrected to what the code does. For every store, every list of seed URLs and every
  \<open>max_pages\<close>, \<open>crawl\<close> terminates: it runs some number \<open>n\<close> of iterations, the loop
  condition holds before each of them, and either it ends after the last, with the queue
  empty or the counter \<open>pages_crawled\<close> at \<open>max_pages\<close>, or it is left in the last by a
  \<^verbatim>\<open>ValueError\<close>, which \<^verbatim>\<open>_can_fetch\<close> has raised for the URL taken from the queue. The rows of
  the store stay, the number of rows added is at most the counter, and the counter is at
  most \<open>max_pages\<close> (or 0): at most \<open>max_pages\<close> documents are stored. When the store is
  empty at the start, the counter is the number of documents stored.
\<close>

theorem crawl_terminates_within_max_pages:
  "\<exists>n new.
    crawl w db seed_urls max_pages = crawl_steps w 0 n (0, Crawler_init db seed_urls) \<and>
    (\<forall>k<n. fst (crawl_steps w 0 k (0, Crawler_init db seed_urls)) = None \<and>
           crawl_cond max_pages (snd (crawl_steps w 0 k (0, Crawler_init db seed_urls)))) \<and>
    (case fst (crawl w db seed_urls max_pages) of
       None \<Rightarrow>
         queue (snd (snd (crawl w db seed_urls max_pages))) = [] \<or>
         max_pages \<le> fst (snd (crawl w db seed_urls max_pages))
     | Some e \<Rightarrow>
         e = ValueError \<and>
         (\<exists>k u rest. n = Suc k \<and>
            queue (snd (snd (crawl_steps w 0 k (0, Crawler_init db seed_urls)))) = u # rest \<and>
            u \<notin> visited_urls (snd (snd (crawl_steps w 0 k (0, Crawler_init db seed_urls)))) \<and>
            fst (can_fetch w k
                  (snd (snd (crawl_steps w 0 k (0, Crawler_init db seed_urls)))\<lparr>queue := rest\<rparr>) u) =
              Inl ValueError)) \<and>
    Crawler.conn (snd (snd (crawl w db seed_urls max_pages))) = db @ new \<and>
    int (length new) \<le> fst (snd (crawl w db seed_urls max_pages)) \<and>
    fst (snd (crawl w db seed_urls max_pages)) \<le> max max_pages 0 \<and>
    (db = [] \<longrightarrow> int (length new) = fst (snd (crawl w db seed_urls max_pages)))"
proof -
  let ?s = "(0 :: int, Crawler_init db seed_urls)"
  let ?r = "crawl w db seed_urls max_pages"
  have r: "?r = crawl_loop w max_pages 0 ?s"
    by (simp add: crawl_def)
  obtain n where n: "?r = crawl_steps w 0 n ?s"
    "\<forall>k<n. fst (crawl_steps w 0 k ?s) = None \<and> crawl_cond max_pages (snd (crawl_steps w 0 k ?s))"
    "case fst (crawl_steps w 0 n ?s) of
       None \<Rightarrow> \<not> crawl_cond max_pages (snd (crawl_steps w 0 n ?s))
     | Some e \<Rightarrow> \<exists>k. n = Suc k \<and>
         crawl_step w (0 + k) (snd (crawl_steps w 0 k ?s)) = crawl_steps w 0 n ?s"
    using crawl_loop_steps [of w max_pages 0 ?s] unfolding r by blast
  have ending: "case fst ?r of
       None \<Rightarrow> queue (snd (snd ?r)) = [] \<or> max_pages \<le> fst (snd ?r)
     | Some e \<Rightarrow>
         e = ValueError \<and>
         (\<exists>k u rest. n = Suc k \<and>
            queue (snd (snd (crawl_steps w 0 k ?s))) = u # rest \<and>
            u \<notin> visited_urls (snd (snd (crawl_steps w 0 k ?s))) \<and>
            fst (can_fetch w k (snd (snd (crawl_steps w 0 k ?s))\<lparr>queue := rest\<rparr>) u) =
              Inl ValueError)"
  proof (cases "fst ?r")
    case None
    with n(1,3) have "\<not> crawl_cond max_pages (snd ?r)"
      by simp
    with None show ?thesis
      by (auto simp: crawl_cond_def)
  next
    case (Some e)
    with n(1,3) obtain k where k: "n = Suc k"
      "crawl_step w k (snd (crawl_steps w 0 k ?s)) = ?r"
      by auto
    from k(2) Some have "fst (crawl_step w k (snd (crawl_steps w 0 k ?s))) = Some e"
      by simp
    then obtain u rest where raised:
      "queue (snd (snd (crawl_steps w 0 k ?s))) = u # rest"
      "u \<notin> visited_urls (snd (snd (crawl_steps w 0 k ?s)))"
      "fst (can_fetch w k (snd (snd (crawl_steps w 0 k ?s))\<lparr>queue := rest\<rparr>) u) = Inl e"
      using crawl_step_raises by blast
    from raised(3) have "e = ValueError"
      by (rule can_fetch_error)
    with Some k(1) raised show ?thesis
      by auto
  qed
  have "\<exists>new. Crawler.conn (snd (snd ?r)) = db @ new \<and> int (length new) \<le> fst (snd ?r) \<and>
      fst (snd ?r) \<le> max max_pages 0"
    unfolding r
    by (rule crawl_loop_invariant) (auto simp: Crawler_init_def intro: crawl_step_count)
  then obtain new where new: "Crawler.conn (snd (snd ?r)) = db @ new"
    "int (length new) \<le> fst (snd ?r)" "fst (snd ?r) \<le> max max_pages 0"
    by blast
  have fresh: "int (length new) = fst (snd ?r)" if "db = []"
  proof -
    have "url ` set (Crawler.conn (snd (snd ?r))) \<subseteq> visited_urls (snd (snd ?r)) \<and>
        fst (snd ?r) = int (length (Crawler.conn (snd (snd ?r))))"
      unfolding r
      by (rule crawl_loop_invariant)
        (use that in \<open>auto simp: Crawler_init_def dest: crawl_step_fresh\<close>)
    with new(1) that show ?thesis
      by simp
  qed
  from n(1,2) ending new fresh show ?thesis
    by blast
qed

theorem crawl_terminates_within_max_pages_witness:
  "fst (crawl open_world [] [''http://a/1''] 2) = None \<and>
   fst (snd (crawl open_world [] [''http://a/1''] 2)) = 2 \<and>
   length (Crawler.conn (snd (snd (crawl open_world [] [''http://a/1''] 2)))) = 2 \<and>
   queue (snd (snd (crawl open_world [] [''http://a/1''] 2))) = [''http://a/next''] \<and>
   base_url open_world ''http://['' = None \<and>
   fst (crawl open_world [] [''http://a/1'', ''http://['', ''http://a/2''] 5) = Some ValueError \<and>
   fst (snd (crawl open_world [] [''http://a/1'', ''http://['', ''http://a/2''] 5)) = 1 \<and>
   queue (snd (snd (crawl open_world [] [''http://a/1'', ''http://['', ''http://a/2''] 5))) =
     [''http://a/2'', ''http://a/next'']"
proof -
  have returned: "fst (crawl open_world [] [''http://a/1''] 2) = None"
    by code_simp
  have counter: "fst (snd (crawl open_world [] [''http://a/1''] 2)) = 2"
    by code_simp
  have pending: "queue (snd (snd (crawl open_world [] [''http://a/1''] 2))) = [''http://a/next'']"
    by code_simp
  have rejected: "base_url open_world ''http://['' = None"
    by code_simp
  have raised:
    "fst (crawl open_world [] [''http://a/1'', ''http://['', ''http://a/2''] 5) = Some ValueError"
    by code_simp
  have counter': "fst (snd (crawl open_world [] [''http://a/1'', ''http://['', ''http://a/2''] 5)) = 1"
    by code_simp
  have pending': "queue (snd (snd
      (crawl open_world [] [''http://a/1'', ''http://['', ''http://a/2''] 5))) =
      [''http://a/2'', ''http://a/next'']"
    by code_simp
  from crawl_terminates_within_max_pages [of open_world "[]" "[''http://a/1'']" 2]
  obtain new where "Crawler.conn (snd (snd (crawl open_world [] [''http://a/1''] 2))) = [] @ new"
    and "int (length new) = fst (snd (crawl open_world [] [''http://a/1''] 2))"
    by blast
  with counter have "length (Crawler.conn (snd (snd (crawl open_world [] [''http://a/1''] 2)))) = 2"
    by simp
  with returned counter pending rejected raised counter' pending' show ?thesis
    by (intro conjI)
qed

text \<open>
  C4, against the sentence of the specification: with two rows in the store from an
  earlier run, one of them for the first seed, \<open>crawl\<close> with \<open>max_pages = 1\<close> ends after
  one iteration with two URLs pending and without having stored a document.
\<close>

theorem crawl_stops_before_max_pages_stored:
  "fst (crawl open_world stored_pages [''http://a/1'', ''http://a/2''] 1) = None \<and>
   fst (snd (crawl open_world stored_pages [''http://a/1'', ''http://a/2''] 1)) = 1 \<and>
   queue (snd (snd (crawl open_world stored_pages [''http://a/1'', ''http://a/2''] 1))) =
     [''http://a/2'', ''http://a/next''] \<and>
   Crawler.conn (snd (snd (crawl open_world stored_pages [''http://a/1'', ''http://a/2''] 1))) =
     stored_pages \<and>
   length stored_pages = 2"
  by code_simp

text \<open>
  C8, corrected to what the code does. When the store rejects the insert because the URL
  has a row already, the iteration of the crawl loop goes on as after an insert: nothing
  is raised, the table is unchanged, the URL is marked visited, the links of the page are
  enqueued behind the rest of the queue, and \<open>pages_crawled\<close> is incremented by one all
  the same.
\<close>

theorem rejected_insert_is_counted:
  assumes "queue self = u # rest" and "u \<notin> visited_urls self"
    and "can_fetch w t (self\<lparr>queue := rest\<rparr>) u = (Inr True, c)"
    and "requests_get w t u = Response 200 html"
    and "get_text w html = Some content"
    and "insert_page (Crawler.conn self) u html content = Inl IntegrityError"
  shows "crawl_step w t (pages_crawled, self) =
      (None, (pages_crawled + 1,
         (case find_all_href w html of
            None \<Rightarrow> c\<lparr>visited_urls := insert u (visited_urls self)\<rparr>
          | Some hrefs \<Rightarrow>
              enqueue_links w u hrefs (c\<lparr>visited_urls := insert u (visited_urls self)\<rparr>)))) \<and>
    queue c = rest \<and>
    Crawler.conn (snd (snd (crawl_step w t (pages_crawled, self)))) = Crawler.conn self \<and>
    visited_urls (snd (snd (crawl_step w t (pages_crawled, self)))) =
      insert u (visited_urls self) \<and>
    (\<forall>hrefs. find_all_href w html = Some hrefs \<and> (\<forall>href\<in>set hrefs. urljoin w u href \<noteq> None) \<longrightarrow>
       queue (snd (snd (crawl_step w t (pages_crawled, self)))) =
         rest @ filter (\<lambda>l. startswith l ''http'')
                  (map (\<lambda>href. the (urljoin w u href)) hrefs))"
proof -
  have frame: "Crawler.conn c = Crawler.conn self" "visited_urls c = visited_urls self"
    "queue c = rest"
    using can_fetch_frame [of w t "self\<lparr>queue := rest\<rparr>" u] assms(3) by simp_all
  let ?c = "c\<lparr>visited_urls := insert u (visited_urls self)\<rparr>"
  have step: "crawl_step w t (pages_crawled, self) = (None, try_fetch w t u (pages_crawled, ?c))"
    using assms(1,2,3) frame(2) by (simp add: crawl_step_def Let_def)
  have dup: "store_page ?c u html content = Some ?c"
    using assms(6) frame by (simp add: store_page_def)
  have fetched: "try_fetch w t u (pages_crawled, ?c) =
      (pages_crawled + 1,
       (case find_all_href w html of None \<Rightarrow> ?c | Some hrefs \<Rightarrow> enqueue_links w u hrefs ?c))"
    using assms(4,5) dup by (simp add: try_fetch_def Let_def split: option.splits)
  have 1: "crawl_step w t (pages_crawled, self) =
      (None, (pages_crawled + 1,
         (case find_all_href w html of None \<Rightarrow> ?c | Some hrefs \<Rightarrow> enqueue_links w u hrefs ?c)))"
    unfolding step fetched ..
  have 2: "Crawler.conn (snd (snd (crawl_step w t (pages_crawled, self)))) = Crawler.conn self"
    unfolding 1 using frame(1) by (simp add: enqueue_links_frame split: option.splits)
  have 3: "visited_urls (snd (snd (crawl_step w t (pages_crawled, self)))) =
      insert u (visited_urls self)"
    unfolding 1 by (simp add: enqueue_links_frame split: option.splits)
  have 4: "queue (snd (snd (crawl_step w t (pages_crawled, self)))) =
      rest @ filter (\<lambda>l. startswith l ''http'') (map (\<lambda>href. the (urljoin w u href)) hrefs)"
    if "find_all_href w html = Some hrefs" "\<forall>href\<in>set hrefs. urljoin w u href \<noteq> None" for hrefs
    unfolding 1 using that(1) enqueue_links_queue [OF that(2), of ?c] frame(3) by simp
  from 1 frame(3) 2 3 4 show ?thesis
    by blast
qed

theorem rejected_insert_is_counted_witness:
  "insert_page stored_pages ''http://a/1'' ''page http://a/1'' ''page http://a/1'' =
     Inl IntegrityError \<and>
   fst (crawl_step open_world 0 (5, Crawler_init stored_pages [''http://a/1'', ''http://b/1''])) =
     None \<and>
   fst (snd (crawl_step open_world 0
     (5, Crawler_init stored_pages [''http://a/1'', ''http://b/1'']))) = 5 + 1 \<and>
   Crawler.conn (snd (snd (crawl_step open_world 0
     (5, Crawler_init stored_pages [''http://a/1'', ''http://b/1''])))) = stored_pages \<and>
   visited_urls (snd (snd (crawl_step open_world 0
     (5, Crawler_init stored_pages [''http://a/1'', ''http://b/1''])))) = {''http://a/1''} \<and>
   queue (snd (snd (crawl_step open_world 0
     (5, Crawler_init stored_pages [''http://a/1'', ''http://b/1''])))) =
     [''http://b/1'', ''http://a/next'']"
proof -
  let ?self = "Crawler_init stored_pages [''http://a/1'', ''http://b/1'']"
  let ?c = "?self\<lparr>queue := [''http://b/1''],
    robot_parsers := (robot_parsers ?self)(''http://a'' \<mapsto>
      RobotFileParser_init\<lparr>last_checked := True, entries := (\<lambda>path. True)\<rparr>)\<rparr>"
  have q: "queue ?self = ''http://a/1'' # [''http://b/1'']"
    by (simp add: Crawler_init_def)
  have v: "''http://a/1'' \<notin> visited_urls ?self"
    by (simp add: Crawler_init_def)
  have a: "can_fetch open_world 0 (?self\<lparr>queue := [''http://b/1'']\<rparr>) ''http://a/1'' =
      (Inr True, ?c)"
    by (simp add: can_fetch_def open_world_def Crawler_init_def RobotFileParser_read_def
        RobotFileParser_can_fetch_def RobotFileParser_init_def)
  have g: "requests_get open_world 0 ''http://a/1'' = Response 200 ''page http://a/1''"
    by (simp add: open_world_def)
  have x: "get_text open_world ''page http://a/1'' = Some ''page http://a/1''"
    by (simp add: open_world_def)
  have i: "insert_page (Crawler.conn ?self) ''http://a/1'' ''page http://a/1''
      ''page http://a/1'' = Inl IntegrityError"
    by (simp add: insert_page_def stored_pages_def Crawler_init_def next_id_def
        sqlite_integer_def)
  have links: "find_all_href open_world ''page http://a/1'' = Some [''/next'', ''mailto:x''] \<and>
      (\<forall>href\<in>set [''/next'', ''mailto:x'']. urljoin open_world ''http://a/1'' href \<noteq> None)"
    by (simp add: open_world_def)
  have http: "filter (\<lambda>l. startswith l ''http'')
      (map (\<lambda>href. the (urljoin open_world ''http://a/1'' href)) [''/next'', ''mailto:x'']) =
      [''http://a/next'']"
    by (simp add: open_world_def startswith_def)
  note counted = rejected_insert_is_counted [OF q v a g x i, of 5]
  from counted have "fst (crawl_step open_world 0 (5, ?self)) = None"
    and "fst (snd (crawl_step open_world 0 (5, ?self))) = 5 + 1"
    by (simp_all only: fst_conv snd_conv)
  moreover from counted
  have "Crawler.conn (snd (snd (crawl_step open_world 0 (5, ?self)))) = Crawler.conn ?self"
    and "visited_urls (snd (snd (crawl_step open_world 0 (5, ?self)))) =
      insert ''http://a/1'' (visited_urls ?self)"
    by blast+
  moreover from counted links
  have "queue (snd (snd (crawl_step open_world 0 (5, ?self)))) =
      [''http://b/1''] @ filter (\<lambda>l. startswith l ''http'')
        (map (\<lambda>href. the (urljoin open_world ''http://a/1'' href)) [''/next'', ''mailto:x''])"
    by blast
  ultimately show ?thesis
    using i unfolding http by (simp add: Crawler_init_def)
qed

text \<open>
  C8, against the sentence of the specification: the URL of the seed has a row in the
  store, the insert is rejected and the table is unchanged, and the iteration takes
  \<open>pages_crawled\<close> from 0 to 1.
\<close>

theorem rejected_insert_increments_pages_crawled:
  "insert_page stored_pages ''http://a/1'' ''page http://a/1'' ''page http://a/1'' =
     Inl IntegrityError \<and>
   fst (snd (crawl_step open_world 0 (0, Crawler_init stored_pages [''http://a/1'']))) = 1 \<and>
   Crawler.conn (snd (snd (crawl_step open_world 0 (0, Crawler_init stored_pages [''http://a/1''])))) =
     stored_pages"
  by code_simp

subsection \<open>The cache of permission policies\<close>

lemma denies_all_can_fetch: "denies_all rp \<Longrightarrow> RobotFileParser_can_fetch w rp u = Inr False"
  by (auto simp: denies_all_def RobotFileParser_can_fetch_def)

lemma read_denied:
  assumes "load_denied (urlopen w t h)"
  shows "RobotFileParser_read w t h RobotFileParser_init = None \<or>
    (\<exists>rp. RobotFileParser_read w t h RobotFileParser_init = Some rp \<and> denies_all rp)"
proof (cases "urlopen w t h")
  case URLError
  then show ?thesis
    by (simp add: RobotFileParser_read_def)
next
  case (HTTPError code)
  with assms have "denying_status code"
    by (simp add: load_denied_def)
  with HTTPError show ?thesis
    by (auto simp: RobotFileParser_read_def RobotFileParser_init_def denies_all_def
        denying_status_def)
next
  case (RobotsTxt rules)
  with assms show ?thesis
    by (simp add: load_denied_def)
qed

text \<open>An entry of the cache is never replaced.\<close>

lemma can_fetch_cached:
  "robot_parsers self h = Some rp \<Longrightarrow> robot_parsers (snd (can_fetch w t self u)) h = Some rp"
  by (auto simp: can_fetch_def split: option.splits)

lemma crawl_step_cached:
  assumes "crawl_cond max_pages s" and "robot_parsers (snd s) h = Some rp"
  shows "robot_parsers (snd (snd (crawl_step w t s))) h = Some rp"
proof -
  from assms(1) obtain u rest where q: "queue (snd s) = u # rest"
    using crawl_cond_queue by blast
  have "robot_parsers (snd (can_fetch w t (snd s\<lparr>queue := rest\<rparr>) u)) h = Some rp"
    using assms(2) by (simp add: can_fetch_cached)
  with crawl_step_cases [OF q, of w t] assms(2) show ?thesis
    by auto
qed

text \<open>
  While every load of the policy of the site \<open>h\<close> is denied, the cache holds no parser for
  \<open>h\<close> or one that denies all, and no URL of \<open>h\<close> is allowed.
\<close>

lemma can_fetch_denied:
  assumes "robot_parsers self h = None \<or> (\<exists>rp. robot_parsers self h = Some rp \<and> denies_all rp)"
    and "\<forall>t. load_denied (urlopen w t h)"
  shows "(robot_parsers (snd (can_fetch w t self u)) h = None \<or>
      (\<exists>rp. robot_parsers (snd (can_fetch w t self u)) h = Some rp \<and> denies_all rp)) \<and>
    (fst (can_fetch w t self u) = Inr True \<longrightarrow> base_url w u \<noteq> Some h)"
proof (cases "base_url w u")
  case None
  with assms(1) show ?thesis
    by (simp add: can_fetch_def)
next
  case (Some site)
  show ?thesis
  proof (cases "site = h")
    case False
    with Some assms(1) show ?thesis
      by (auto simp: can_fetch_def split: option.splits)
  next
    case True
    show ?thesis
    proof (cases "robot_parsers self h")
      case cached: (Some rp)
      with assms(1) have "denies_all rp"
        by simp
      with Some True cached show ?thesis
        by (simp add: can_fetch_def denies_all_can_fetch)
    next
      case None
      from assms(2) have "load_denied (urlopen w t h)"
        by simp
      from read_denied [OF this] show ?thesis
      proof (elim disjE exE conjE)
        assume "RobotFileParser_read w t h RobotFileParser_init = None"
        with Some True None show ?thesis
          by (simp add: can_fetch_def)
      next
        fix rp
        assume "RobotFileParser_read w t h RobotFileParser_init = Some rp" "denies_all rp"
        with Some True None show ?thesis
          by (simp add: can_fetch_def denies_all_can_fetch)
      qed
    qed
  qed
qed

lemma crawl_step_denied:
  assumes "crawl_cond max_pages s"
    and "\<forall>t. load_denied (urlopen w t h)"
    and "robot_parsers (snd s) h = None \<or>
      (\<exists>rp. robot_parsers (snd s) h = Some rp \<and> denies_all rp)"
    and "\<forall>p\<in>set (Crawler.conn (snd s)). base_url w (url p) = Some h \<longrightarrow> p \<in> set db"
  shows "(robot_parsers (snd (snd (crawl_step w t s))) h = None \<or>
      (\<exists>rp. robot_parsers (snd (snd (crawl_step w t s))) h = Some rp \<and> denies_all rp)) \<and>
    (\<forall>p\<in>set (Crawler.conn (snd (snd (crawl_step w t s)))).
       base_url w (url p) = Some h \<longrightarrow> p \<in> set db)"
proof -
  from assms(1) obtain u rest where q: "queue (snd s) = u # rest"
    using crawl_cond_queue by blast
  let ?cf = "can_fetch w t (snd s\<lparr>queue := rest\<rparr>) u"
  have cf: "robot_parsers (snd ?cf) h = None \<or>
      (\<exists>rp. robot_parsers (snd ?cf) h = Some rp \<and> denies_all rp)"
    "fst ?cf = Inr True \<longrightarrow> base_url w u \<noteq> Some h"
    using can_fetch_denied [of "snd s\<lparr>queue := rest\<rparr>" h w t u] assms(2,3) by simp_all
  from crawl_step_cases [OF q, of w t] show ?thesis
  proof (elim disjE conjE exE)
    fix html content
    assume a: "fst ?cf = Inr True"
      "Crawler.conn (snd (snd (crawl_step w t s))) =
        (if u \<in> url ` set (Crawler.conn (snd s)) then Crawler.conn (snd s)
         else Crawler.conn (snd s) @ [\<lparr>page_id = next_id (Crawler.conn (snd s)),
                url = u, html_content = html, text_content = content\<rparr>])"
      "robot_parsers (snd (snd (crawl_step w t s))) = robot_parsers (snd ?cf)"
    with cf assms(4) show ?thesis
      by auto
  next
    assume "Crawler.conn (snd (snd (crawl_step w t s))) = Crawler.conn (snd s)"
      "robot_parsers (snd (snd (crawl_step w t s))) = robot_parsers (snd s)"
    with assms(3,4) show ?thesis
      by simp
  next
    assume "Crawler.conn (snd (snd (crawl_step w t s))) = Crawler.conn (snd s)"
      "robot_parsers (snd (snd (crawl_step w t s))) = robot_parsers (snd ?cf)"
    with cf(1) assms(4) show ?thesis
      by simp
  qed
qed

text \<open>
  C2, corrected to what the code does. What the first attempt to load the permission
  policy of a site \<open>h\<close> leaves depends on how it fails. If the load raises (the site is
  not reached), that call of \<open>can_fetch\<close> returns false and caches nothing for the site;
  a query for a site without a cached policy loads the policy, and answers from the file
  when one is read. If the site answers the request with the status 401 or 403, or with
  a status outside 400 to 499, a deny-all policy is cached for the site; with a deny-all
  policy in the cache every query for a URL of the site returns false, and an entry of
  the cache stays for the remainder of the run. With any other status from 400 to 499
  the query returns true. If every attempt to load the policy of a site raises or gets a
  status of the denying kind, no URL of the site is ever stored: every row of the site in
  the store after \<open>crawl\<close> was there before.
\<close>

theorem policy_load_failure_denies:
  "(base_url w u = Some h \<and> robot_parsers self h = None \<and> urlopen w t h = URLError \<longrightarrow>
      can_fetch w t self u = (Inr False, self)) \<and>
   (base_url w u = Some h \<and> robot_parsers self h = None \<and>
    urlopen w t h = HTTPError code \<and> denying_status code \<longrightarrow>
      (\<exists>rp. denies_all rp \<and>
         can_fetch w t self u =
           (Inr False, self\<lparr>robot_parsers := (robot_parsers self)(h \<mapsto> rp)\<rparr>))) \<and>
   (base_url w u = Some h \<and> robot_parsers self h = Some rp \<and> denies_all rp \<longrightarrow>
      can_fetch w t self u = (Inr False, self)) \<and>
   (robot_parsers (snd s) h = Some rp \<longrightarrow>
      robot_parsers (snd (snd (crawl_loop w max_pages t s))) h = Some rp) \<and>
   (base_url w u = Some h \<and> robot_parsers self h = None \<and>
    urlopen w t h = HTTPError code \<and> \<not> denying_status code \<longrightarrow>
      fst (can_fetch w t self u) = Inr True) \<and>
   (base_url w u = Some h \<and> robot_parsers self h = None \<and>
    urlopen w t h = RobotsTxt rules \<and> robots_path w u = Some path \<longrightarrow>
      fst (can_fetch w t self u) = Inr (rules path)) \<and>
   ((\<forall>t. load_denied (urlopen w t h)) \<longrightarrow>
      (\<forall>p\<in>set (Crawler.conn (snd (snd (crawl w db seed_urls max_pages)))).
         base_url w (url p) = Some h \<longrightarrow> p \<in> set db))"
proof -
  have 1: "can_fetch w t self u = (Inr False, self)"
    if "base_url w u = Some h" "robot_parsers self h = None" "urlopen w t h = URLError"
    using that by (simp add: can_fetch_def RobotFileParser_read_def)
  have 2: "\<exists>rp. denies_all rp \<and>
      can_fetch w t self u = (Inr False, self\<lparr>robot_parsers := (robot_parsers self)(h \<mapsto> rp)\<rparr>)"
    if "base_url w u = Some h" "robot_parsers self h = None"
      "urlopen w t h = HTTPError code" "denying_status code"
  proof -
    from that(3,4) obtain rp where
      rp: "RobotFileParser_read w t h RobotFileParser_init = Some rp" "denies_all rp"
      by (auto simp: RobotFileParser_read_def RobotFileParser_init_def denies_all_def
          denying_status_def)
    with that(1,2) have "can_fetch w t self u =
        (Inr False, self\<lparr>robot_parsers := (robot_parsers self)(h \<mapsto> rp)\<rparr>)"
      by (simp add: can_fetch_def denies_all_can_fetch)
    with rp(2) show ?thesis
      by blast
  qed
  have 3: "can_fetch w t self u = (Inr False, self)"
    if "base_url w u = Some h" "robot_parsers self h = Some rp" "denies_all rp"
    using that by (simp add: can_fetch_def denies_all_can_fetch)
  have 4: "robot_parsers (snd (snd (crawl_loop w max_pages t s))) h = Some rp"
    if "robot_parsers (snd s) h = Some rp"
    using that by (rule crawl_loop_invariant) (rule crawl_step_cached)
  have 5: "fst (can_fetch w t self u) = Inr True"
    if "base_url w u = Some h" "robot_parsers self h = None"
      "urlopen w t h = HTTPError code" "\<not> denying_status code"
    using that
    by (simp add: can_fetch_def RobotFileParser_read_def RobotFileParser_can_fetch_def
        RobotFileParser_init_def denying_status_def)
  have 7: "fst (can_fetch w t self u) = Inr (rules path)"
    if "base_url w u = Some h" "robot_parsers self h = None"
      "urlopen w t h = RobotsTxt rules" "robots_path w u = Some path"
    using that
    by (simp add: can_fetch_def RobotFileParser_read_def RobotFileParser_can_fetch_def
        RobotFileParser_init_def)
  have 6: "\<forall>p\<in>set (Crawler.conn (snd (snd (crawl w db seed_urls max_pages)))).
      base_url w (url p) = Some h \<longrightarrow> p \<in> set db"
    if h: "\<forall>t. load_denied (urlopen w t h)"
  proof -
    let ?inv = "\<lambda>s. (robot_parsers (snd s) h = None \<or>
        (\<exists>rp. robot_parsers (snd s) h = Some rp \<and> denies_all rp)) \<and>
      (\<forall>p\<in>set (Crawler.conn (snd s)). base_url w (url p) = Some h \<longrightarrow> p \<in> set db)"
    have "?inv (snd (crawl_loop w max_pages 0 (0, Crawler_init db seed_urls)))"
    proof (rule crawl_loop_invariant)
      show "?inv (0, Crawler_init db seed_urls)"
        by (simp add: Crawler_init_def)
    next
      fix t :: nat and s :: "int \<times> Crawler"
      assume "?inv s" and "crawl_cond max_pages s"
      with h show "?inv (snd (crawl_step w t s))"
        using crawl_step_denied [of max_pages s w h db t] by blast
    qed
    then show ?thesis
      by (simp add: crawl_def)
  qed
  from 1 2 3 4 5 6 7 show ?thesis
    by blast
qed


theorem policy_load_failure_denies_witness:
  "can_fetch closed_world 0 (Crawler_init [] [''http://a/1'']) ''http://a/1'' =
     (Inr False, Crawler_init [] [''http://a/1'']) \<and>
   fst (can_fetch unavailable_world 0 (Crawler_init [] []) ''http://a/1'') = Inr False \<and>
   (\<exists>rp. robot_parsers (snd (can_fetch unavailable_world 0 (Crawler_init [] []) ''http://a/1''))
           ''http://a'' = Some rp \<and> denies_all rp) \<and>
   fst (can_fetch open_world 1
          (snd (can_fetch unavailable_world 0 (Crawler_init [] []) ''http://a/1''))
          ''http://a/2'') = Inr False \<and>
   fst (can_fetch missing_world 0 (Crawler_init [] []) ''http://a/1'') = Inr True \<and>
   fst (can_fetch open_world 1
          (snd (can_fetch closed_world 0 (Crawler_init [] [''http://a/1'']) ''http://a/1''))
          ''http://a/1'') = Inr True \<and>
   filter (\<lambda>p. base_url closed_world (url p) = Some ''http://a'')
     (Crawler.conn (snd (snd (crawl closed_world [] [''http://a/1'', ''http://b/1''] 3)))) = [] \<and>
   map url (Crawler.conn (snd (snd (crawl closed_world [] [''http://a/1'', ''http://b/1''] 3)))) =
     [''http://b/1'', ''http://b/next''] \<and>
   map url (Crawler.conn (snd (snd
     (crawl unavailable_world [] [''http://a/1'', ''http://b/1'', ''http://a/2''] 3)))) =
     [''http://b/1'', ''http://b/next'']"
proof -
  let ?c = "Crawler_init [] []"
  have site: "base_url closed_world ''http://a/1'' = Some ''http://a''"
    "base_url unavailable_world ''http://a/1'' = Some ''http://a''"
    "base_url open_world ''http://a/2'' = Some ''http://a''"
    "base_url missing_world ''http://a/1'' = Some ''http://a''"
    by (simp_all add: closed_world_def unavailable_world_def missing_world_def open_world_def)
  have empty: "robot_parsers (Crawler_init [] [''http://a/1'']) ''http://a'' = None"
    "robot_parsers ?c ''http://a'' = None"
    by (simp_all add: Crawler_init_def)
  have raises: "urlopen closed_world 0 ''http://a'' = URLError"
    by (simp add: closed_world_def open_world_def)
  have never: "\<forall>t. load_denied (urlopen closed_world t ''http://a'')"
    "\<forall>t. load_denied (urlopen unavailable_world t ''http://a'')"
    by (simp_all add: closed_world_def unavailable_world_def open_world_def load_denied_def
        denying_status_def)
  have status: "urlopen unavailable_world 0 ''http://a'' = HTTPError 503" "denying_status 503"
    "urlopen missing_world 0 ''http://a'' = HTTPError 404" "\<not> denying_status 404"
    by (simp_all add: unavailable_world_def missing_world_def open_world_def denying_status_def)
  have others: "map url (Crawler.conn (snd (snd
      (crawl closed_world [] [''http://a/1'', ''http://b/1''] 3)))) =
      [''http://b/1'', ''http://b/next'']"
    by code_simp
  have others': "map url (Crawler.conn (snd (snd
      (crawl unavailable_world [] [''http://a/1'', ''http://b/1'', ''http://a/2''] 3)))) =
      [''http://b/1'', ''http://b/next'']"
    by code_simp
  have 1: "can_fetch closed_world 0 (Crawler_init [] [''http://a/1'']) ''http://a/1'' =
      (Inr False, Crawler_init [] [''http://a/1''])"
    using policy_load_failure_denies
      [where w = closed_world and u = "''http://a/1''" and h = "''http://a''" and t = 0
        and self = "Crawler_init [] [''http://a/1'']"]
      site(1) empty(1) raises
    by blast
  obtain rp where rp: "denies_all rp"
    "can_fetch unavailable_world 0 ?c ''http://a/1'' =
       (Inr False, ?c\<lparr>robot_parsers := (robot_parsers ?c)(''http://a'' \<mapsto> rp)\<rparr>)"
    using policy_load_failure_denies
      [where w = unavailable_world and u = "''http://a/1''" and h = "''http://a''" and t = 0
        and self = ?c and code = 503]
      site(2) empty(2) status(1,2)
    by blast
  have 2: "fst (can_fetch unavailable_world 0 ?c ''http://a/1'') = Inr False"
    "\<exists>rp. robot_parsers (snd (can_fetch unavailable_world 0 ?c ''http://a/1'')) ''http://a'' =
       Some rp \<and> denies_all rp"
    using rp by simp_all
  have 3: "fst (can_fetch open_world 1 (snd (can_fetch unavailable_world 0 ?c ''http://a/1''))
      ''http://a/2'') = Inr False"
    using policy_load_failure_denies
      [where w = open_world and u = "''http://a/2''" and h = "''http://a''" and t = 1
        and self = "?c\<lparr>robot_parsers := (robot_parsers ?c)(''http://a'' \<mapsto> rp)\<rparr>"
        and rp = rp]
      site(3) rp
    by simp
  have 4: "fst (can_fetch missing_world 0 ?c ''http://a/1'') = Inr True"
    using policy_load_failure_denies
      [where w = missing_world and u = "''http://a/1''" and h = "''http://a''" and t = 0
        and self = ?c and code = 404]
      site(4) empty(2) status(3,4)
    by blast
  have again: "fst (can_fetch open_world 1 (Crawler_init [] [''http://a/1'']) ''http://a/1'') =
      Inr True"
    using policy_load_failure_denies
      [where w = open_world and u = "''http://a/1''" and h = "''http://a''" and t = 1
        and self = "Crawler_init [] [''http://a/1'']" and rules = "\<lambda>path. True"
        and path = "''/1''"]
      empty(1)
    by (simp add: open_world_def)
  have 5: "filter (\<lambda>p. base_url closed_world (url p) = Some ''http://a'')
      (Crawler.conn (snd (snd (crawl closed_world [] [''http://a/1'', ''http://b/1''] 3)))) = []"
    using policy_load_failure_denies
      [where w = closed_world and h = "''http://a''" and db = "[]"
        and seed_urls = "[''http://a/1'', ''http://b/1'']" and max_pages = 3]
      never(1)
    by (simp add: filter_empty_conv)
  from 1 2 3 4 5 again others others' show ?thesis
    by (simp only: snd_conv simp_thms)
qed

text \<open>
  C2, against the sentence of the specification: the first load of the policy of the site
  raises and the query returns false, nothing is cached, the load of the next query
  succeeds and the query returns true; the URL, queued twice, is stored.
\<close>

theorem failed_policy_load_is_not_cached:
  "urlopen flaky_world 0 ''http://a'' = URLError \<and>
   fst (can_fetch flaky_world 0 (Crawler_init [] []) ''http://a/1'') = Inr False \<and>
   robot_parsers (snd (can_fetch flaky_world 0 (Crawler_init [] []) ''http://a/1''))
     ''http://a'' = None \<and>
   fst (can_fetch flaky_world 1
          (snd (can_fetch flaky_world 0 (Crawler_init [] []) ''http://a/1'')) ''http://a/1'') =
     Inr True \<and>
   map url (Crawler.conn (snd (snd (crawl flaky_world [] [''http://a/1'', ''http://a/1''] 1)))) =
     [''http://a/1'']"
proof -
  have "map url (Crawler.conn (snd (snd
      (crawl flaky_world [] [''http://a/1'', ''http://a/1''] 1)))) = [''http://a/1'']"
    by code_simp
  then show ?thesis
    by (simp add: can_fetch_def flaky_world_def open_world_def Crawler_init_def
        RobotFileParser_read_def RobotFileParser_can_fetch_def RobotFileParser_init_def)
qed

subsection \<open>The frontier\<close>

text \<open>
  C3, corrected to what the code does. For every link discovered during crawling, \<open>enqueue\<close> is a no-op if the
  URL does not start with the characters \<^verbatim>\<open>http\<close>; otherwise the URL is appended to the
  tail of the queue, whether or not it is in the visited set or in the queue already. The
  links of a page whose \<^verbatim>\<open>urljoin\<close> all return are enqueued in their order.
\<close>

theorem enqueue_appends_every_http_link:
  "(\<not> startswith absolute_link ''http'' \<longrightarrow> enqueue self absolute_link = self) \<and>
   (startswith absolute_link ''http'' \<longrightarrow>
      enqueue self absolute_link = self\<lparr>queue := queue self @ [absolute_link]\<rparr>) \<and>
   ((\<forall>href\<in>set hrefs. urljoin w u href \<noteq> None) \<longrightarrow>
      queue (enqueue_links w u hrefs self) =
        queue self @
          filter (\<lambda>l. startswith l ''http'') (map (\<lambda>href. the (urljoin w u href)) hrefs))"
  using enqueue_links_queue [of hrefs w u self] by (simp add: enqueue_def)

theorem enqueue_appends_every_http_link_witness:
  "enqueue example_crawler ''mailto:x'' = example_crawler \<and>
   queue (enqueue example_crawler ''http://a/1'') = [''http://a/1'', ''http://a/1''] \<and>
   queue (enqueue_links open_world ''http://a/1'' [''/next'', ''mailto:x'', ''/next'']
            example_crawler) =
     [''http://a/1'', ''http://a/next'', ''http://a/next'']"
proof -
  have no: "\<not> startswith ''mailto:x'' ''http''"
    by (simp add: startswith_def)
  have yes: "startswith ''http://a/1'' ''http''"
    by (simp add: startswith_def)
  have joins: "\<forall>href\<in>set [''/next'', ''mailto:x'', ''/next''].
      urljoin open_world ''http://a/1'' href \<noteq> None"
    by (simp add: open_world_def)
  have links: "filter (\<lambda>l. startswith l ''http'')
      (map (\<lambda>href. the (urljoin open_world ''http://a/1'' href))
         [''/next'', ''mailto:x'', ''/next'']) = [''http://a/next'', ''http://a/next'']"
    by (simp add: open_world_def startswith_def)
  from enqueue_appends_every_http_link
      [of "''mailto:x''" example_crawler "[''/next'', ''mailto:x'', ''/next'']" open_world
        "''http://a/1''"]
    enqueue_appends_every_http_link [of "''http://a/1''" example_crawler "[]" open_world "[]"]
    no yes joins links
  show ?thesis
    by (simp add: example_crawler_def)
qed

text \<open>
  C3, against the sentence of the specification: the URL is in the visited set and in the queue, and
  \<open>enqueue\<close> appends it to the queue once more.
\<close>

theorem enqueue_appends_visited_and_queued_url:
  "''http://a/1'' \<in> visited_urls example_crawler \<and>
   ''http://a/1'' \<in> set (queue example_crawler) \<and>
   enqueue example_crawler ''http://a/1'' \<noteq> example_crawler \<and>
   queue (enqueue example_crawler ''http://a/1'') = [''http://a/1'', ''http://a/1'']"
  by (simp add: example_crawler_def enqueue_def startswith_def)

subsection \<open>The index file\<close>

text \<open>Characters and their escapes.\<close>

lemma ord_chr: "n < 256 \<Longrightarrow> ord (chr n) = n"
  by (simp add: ord_def chr_def)

lemma chr_ord: "chr (ord c) = c"
  by (simp add: ord_def chr_def)

lemma ord_less_256: "ord c < 256"
  by (simp add: ord_def)

lemma ord_eq_iff: "ord c = ord d \<longleftrightarrow> c = d"
  by (simp add: ord_def)

lemma hex_value_hex_digit: "d < 16 \<Longrightarrow> hex_value (hex_digit d) = Some d"
  by (auto simp: hex_value_def hex_digit_def ord_chr Let_def)

lemma decode_hex4:
  assumes "n < 256"
  shows "decode_uXXXX (hex_digit (n div 4096 mod 16)) (hex_digit (n div 256 mod 16))
    (hex_digit (n div 16 mod 16)) (hex_digit (n mod 16)) = Some n"
proof -
  from assms have "n div 4096 mod 16 = 0" "n div 256 mod 16 = 0" "n div 16 mod 16 = n div 16"
    "n div 16 < 16"
    by simp_all
  then show ?thesis
    by (simp add: decode_uXXXX_def hex_value_hex_digit)
qed

lemma scanstring_escape_char: "scanstring (escape_char c @ rest) = prepend c (scanstring rest)"
proof -
  consider (bs) "c = CHR 0x5C" | (q) "c = CHR 0x22" | (b) "c = CHR 0x08" | (f) "c = CHR 0x0C"
    | (n) "c = CHR 0x0A" | (r) "c = CHR 0x0D" | (t) "c = CHR 0x09"
    | (u) "c \<notin> {CHR 0x5C, CHR 0x22, CHR 0x08, CHR 0x0C, CHR 0x0A, CHR 0x0D, CHR 0x09}"
        "ord c < 32 \<or> 126 < ord c"
    | (plain) "c \<notin> {CHR 0x5C, CHR 0x22, CHR 0x08, CHR 0x0C, CHR 0x0A, CHR 0x0D, CHR 0x09}"
        "\<not> (ord c < 32 \<or> 126 < ord c)"
    by blast
  then show ?thesis
  proof cases
    case u
    with decode_hex4 [OF ord_less_256, of c] show ?thesis
      by (simp add: escape_char_def hex4_def ord_less_256 chr_ord)
  next
    case plain
    then show ?thesis
      by (simp add: escape_char_def)
  qed (simp_all add: escape_char_def backslash_def)
qed

lemma scanstring_escaped:
  "scanstring (concat (map escape_char k) @ CHR 0x22 # rest) = Some (k, rest)"
  by (induction k) (simp_all add: scanstring_escape_char prepend_def)

lemma scanstring_encode_basestring_ascii:
  "\<exists>body. encode_basestring_ascii k @ rest = CHR 0x22 # body \<and> scanstring body = Some (k, rest)"
  by (simp add: encode_basestring_ascii_def scanstring_escaped)

text \<open>Decimal digits.\<close>

lemma chr_48: "chr 48 = CHR ''0''"
  by code_simp

lemma is_digit_chr: "d < 10 \<Longrightarrow> is_digit (chr (48 + d))"
  by (simp add: is_digit_def ord_chr)

lemma decimal_all_digits: "\<forall>c\<in>set (decimal n). is_digit c"
proof (induction n rule: decimal.induct)
  case (1 n)
  show ?case
  proof (cases "n < 10")
    case True
    then show ?thesis
      by (simp add: decimal.simps [of n] is_digit_chr)
  next
    case False
    with "1.IH" show ?thesis
      by (simp add: decimal.simps [of n] is_digit_chr)
  qed
qed

lemma decimal_not_Nil: "decimal n \<noteq> []"
  by (simp add: decimal.simps [of n])

lemma decimal_value_snoc:
  "decimal_value (ds @ [c]) = 10 * decimal_value ds + (ord c - 48)"
  by (simp add: decimal_value_def)

lemma decimal_value_decimal: "decimal_value (decimal n) = n"
proof (induction n rule: decimal.induct)
  case (1 n)
  show ?case
  proof (cases "n < 10")
    case True
    then show ?thesis
      by (simp add: decimal.simps [of n] decimal_value_def ord_chr)
  next
    case False
    then have "decimal_value (decimal n) = 10 * decimal_value (decimal (n div 10)) + (ord (chr (48 + n mod 10)) - 48)"
      by (simp add: decimal.simps [of n] decimal_value_snoc)
    also have "\<dots> = 10 * (n div 10) + n mod 10"
      using False "1.IH" by (simp add: ord_chr)
    finally show ?thesis
      by simp
  qed
qed

lemma hd_decimal_zero: "hd (decimal n) = CHR ''0'' \<longleftrightarrow> n = 0"
proof (induction n rule: decimal.induct)
  case (1 n)
  show ?case
  proof (cases "n < 10")
    case True
    have "chr (48 + n) = CHR ''0'' \<longleftrightarrow> ord (chr (48 + n)) = ord (CHR ''0'')"
      by (simp only: ord_eq_iff)
    also have "\<dots> \<longleftrightarrow> n = 0"
      using True by (simp add: ord_chr) (simp add: ord_def)
    finally show ?thesis
      using True by (simp add: decimal.simps [of n])
  next
    case False
    then have "hd (decimal n) = hd (decimal (n div 10))"
      by (simp add: decimal.simps [of n] decimal_not_Nil)
    with False "1.IH" show ?thesis
      by simp
  qed
qed

lemma ends_number_no_frac: "ends_number rest \<Longrightarrow> \<not> frac_or_exp rest"
  by (cases rest) (auto simp: ends_number_def frac_or_exp_def)

lemma match_integer_decimal:
  assumes "ends_number rest"
  shows "match_integer (decimal n @ rest) = Some (decimal n, rest)"
proof -
  obtain c cs where d: "decimal n = c # cs"
    using decimal_not_Nil [of n] by (cases "decimal n") auto
  have all: "\<forall>x\<in>set (decimal n). is_digit x"
    by (rule decimal_all_digits)
  from assms obtain e r where rest: "rest = e # r" "\<not> is_digit e"
    by (cases rest) (auto simp: ends_number_def is_digit_def ord_def)
  show ?thesis
  proof (cases "n = 0")
    case True
    then show ?thesis
      by (simp add: decimal.simps [of 0] match_integer_def chr_48)
  next
    case False
    with hd_decimal_zero [of n] d have "c \<noteq> CHR ''0''"
      by simp
    moreover have "takeWhile is_digit (decimal n @ rest) = decimal n"
      using all rest by (simp add: takeWhile_append)
    moreover have "dropWhile is_digit (decimal n @ rest) = rest"
      using all rest by (simp add: dropWhile_append)
    ultimately show ?thesis
      using d all by (auto simp: match_integer_def)
  qed
qed

lemma scan_int_intstr:
  assumes "ends_number rest"
  shows "scan_int (intstr i @ rest) = Some (i, rest)"
proof (cases "i < 0")
  case True
  then show ?thesis
    using match_integer_decimal [OF assms, of "nat (- i)"] ends_number_no_frac [OF assms]
    by (simp add: scan_int_def intstr_def decimal_value_decimal)
next
  case False
  obtain c cs where d: "decimal (nat i) = c # cs"
    using decimal_not_Nil [of "nat i"] by (cases "decimal (nat i)") auto
  have "is_digit c"
    using decimal_all_digits [of "nat i"] d by simp
  then have "c \<noteq> CHR ''-''"
    by (auto simp: is_digit_def ord_def)
  moreover have "decimal_value (c # cs) = nat i"
    using decimal_value_decimal [of "nat i"] d by simp
  ultimately show ?thesis
    using False d match_integer_decimal [OF assms, of "nat i"] ends_number_no_frac [OF assms]
    by (simp add: scan_int_def intstr_def)
qed

lemma skip_ws_newline_indent:
  "\<not> json_ws c \<Longrightarrow> skip_ws (newline_indent level @ c # rest) = c # rest"
  by (simp add: skip_ws_def newline_indent_def json_ws_def dropWhile_append)

lemma skip_ws_plain: "\<not> json_ws c \<Longrightarrow> skip_ws (c # rest) = c # rest"
  by (simp add: skip_ws_def)

lemma ends_number_newline_indent: "ends_number (newline_indent level @ rest)"
  by (simp add: ends_number_def newline_indent_def)

lemma ends_number_comma: "ends_number (CHR '','' # rest)"
  by (simp add: ends_number_def)

lemma hd_intstr_not_ws: "\<exists>c cs. intstr i = c # cs \<and> \<not> json_ws c \<and> c \<noteq> CHR '']''"
proof -
  have d: "\<exists>c cs. decimal n = c # cs \<and> is_digit c" for n
  proof -
    obtain c cs where "decimal n = c # cs"
      using decimal_not_Nil [of n] by (cases "decimal n") auto
    moreover from this have "is_digit c"
      using decimal_all_digits [of n] by simp
    ultimately show ?thesis
      by blast
  qed
  have "\<not> json_ws c \<and> c \<noteq> CHR '']''" if "is_digit c" for c
    using that by (auto simp: is_digit_def json_ws_def ord_def)
  then show ?thesis
    using d [of "nat i"] by (auto simp: intstr_def json_ws_def)
qed

text \<open>The loop of \<open>JSONArray\<close> reads back the elements that \<open>iterencode_list\<close> has joined.\<close>

lemma array_loop_join:
  "xs \<noteq> [] \<Longrightarrow>
   array_loop vals
     (join ('','' @ newline_indent (Suc level)) (map intstr xs) @ newline_indent level @
      CHR '']'' # rest) =
   Some (vals @ xs, rest)"
proof (induction xs arbitrary: vals)
  case Nil
  then show ?case by simp
next
  case (Cons x xs)
  show ?case
  proof (cases xs)
    case Nil
    have "scan_int (intstr x @ newline_indent level @ CHR '']'' # rest) =
        Some (x, newline_indent level @ CHR '']'' # rest)"
      by (rule scan_int_intstr) (rule ends_number_newline_indent)
    moreover have "skip_ws (newline_indent level @ CHR '']'' # rest) = CHR '']'' # rest"
      by (rule skip_ws_newline_indent) (simp add: json_ws_def)
    ultimately show ?thesis
      using Nil by (subst array_loop.simps) simp
  next
    case (Cons y ys)
    let ?tail = "join ('','' @ newline_indent (Suc level)) (map intstr (y # ys)) @
      newline_indent level @ CHR '']'' # rest"
    let ?after = "CHR '','' # newline_indent (Suc level) @ ?tail"
    obtain c cs where c: "intstr y = c # cs" "\<not> json_ws c"
      using hd_intstr_not_ws by blast
    then obtain t where t: "?tail = c # t"
      by (cases ys) auto
    have "scan_int (intstr x @ ?after) = Some (x, ?after)"
      by (rule scan_int_intstr) (rule ends_number_comma)
    moreover have "skip_ws ?after = ?after"
      by (rule skip_ws_plain) (simp add: json_ws_def)
    moreover have "skip_ws (newline_indent (Suc level) @ ?tail) = ?tail"
      unfolding t using c(2) by (rule skip_ws_newline_indent)
    moreover have "array_loop (vals @ [x]) ?tail = Some ((vals @ [x]) @ y # ys, rest)"
      using Cons.IH [of "vals @ [x]"] Cons by simp
    ultimately show ?thesis
      using Cons by (subst array_loop.simps) simp
  qed
qed

lemma JSONArray_iterencode_list:
  "\<exists>body. iterencode_list level xs @ rest = CHR ''['' # body \<and> JSONArray body = Some (xs, rest)"
proof (cases "xs = []")
  case True
  then show ?thesis
    by (simp add: iterencode_list_def JSONArray_def skip_ws_def json_ws_def)
next
  case False
  let ?elems = "join ('','' @ newline_indent (Suc level)) (map intstr xs) @
    newline_indent level @ CHR '']'' # rest"
  obtain x xs' where xs: "xs = x # xs'"
    using False by (cases xs) auto
  obtain c cs where c: "intstr x = c # cs" "\<not> json_ws c" and nb: "c \<noteq> CHR '']''"
    using hd_intstr_not_ws by blast
  then obtain t where t: "?elems = c # t"
    using xs by (cases xs') auto
  have "skip_ws (newline_indent (Suc level) @ ?elems) = ?elems"
    unfolding t using c(2) by (rule skip_ws_newline_indent)
  moreover have "array_loop [] ?elems = Some (xs, rest)"
    using array_loop_join [OF False, of "[]" level rest] by simp
  ultimately have "JSONArray (newline_indent (Suc level) @ ?elems) = Some (xs, rest)"
    using t nb by (simp add: JSONArray_def Let_def)
  with False show ?thesis
    by (simp add: iterencode_list_def)
qed

lemma object_loop_join:
  "kvs \<noteq> [] \<Longrightarrow>
   \<exists>body. join ('','' @ newline_indent 1) (map (encode_item 1) kvs) @ newline_indent 0 @
            CHR ''}'' # rest = CHR 0x22 # body \<and>
          object_loop pairs body = Some (pairs @ kvs, rest)"
proof (induction kvs arbitrary: pairs)
  case Nil
  then show ?case by simp
next
  case (Cons kv kvs)
  obtain k v where kv: "kv = (k, v)"
    by (cases kv)
  let ?sep = "'','' @ newline_indent 1"
  let ?close = "newline_indent 0 @ CHR ''}'' # rest"
  define after where "after = (if kvs = [] then ?close
    else CHR '','' # newline_indent 1 @ join ?sep (map (encode_item 1) kvs) @ ?close)"
  have shape: "join ?sep (map (encode_item 1) (kv # kvs)) @ ?close =
      encode_basestring_ascii k @ '': '' @ iterencode_list 1 v @ after"
    by (cases kvs) (simp_all add: kv encode_item_def after_def)
  obtain body where body: "encode_basestring_ascii k @ '': '' @ iterencode_list 1 v @ after =
      CHR 0x22 # body" and key: "scanstring body = Some (k, '': '' @ iterencode_list 1 v @ after)"
    using scanstring_encode_basestring_ascii [of k "'': '' @ iterencode_list 1 v @ after"]
    by auto
  obtain lbody where lbody: "iterencode_list 1 v @ after = CHR ''['' # lbody"
    and arr: "JSONArray lbody = Some (v, after)"
    using JSONArray_iterencode_list [of 1 v after] by blast
  have colon: "skip_ws ('': '' @ iterencode_list 1 v @ after) =
      CHR '':'' # CHR '' '' # CHR ''['' # lbody"
    using lbody by (simp add: skip_ws_def json_ws_def)
  have bracket: "skip_ws (CHR '' '' # CHR ''['' # lbody) = CHR ''['' # lbody"
    by (simp add: skip_ws_def json_ws_def)
  have "object_loop pairs body = Some (pairs @ kv # kvs, rest)"
  proof (cases "kvs = []")
    case True
    then have "skip_ws after = CHR ''}'' # rest"
      by (simp add: after_def skip_ws_def json_ws_def newline_indent_def)
    with key colon bracket arr True show ?thesis
      by (subst object_loop.simps) (simp add: kv)
  next
    case False
    from Cons.IH [OF False, of "pairs @ [kv]"] obtain body' where
      next_text: "join ?sep (map (encode_item 1) kvs) @ ?close = CHR 0x22 # body'"
      and rec: "object_loop (pairs @ [kv]) body' = Some ((pairs @ [kv]) @ kvs, rest)"
      by blast
    have a: "after = CHR '','' # newline_indent 1 @ CHR 0x22 # body'"
      using False next_text by (simp add: after_def)
    have comma: "skip_ws after = after"
      unfolding a by (simp add: skip_ws_def json_ws_def)
    have quote: "skip_ws (newline_indent 1 @ CHR 0x22 # body') = CHR 0x22 # body'"
      by (rule skip_ws_newline_indent) (simp add: json_ws_def)
    from key colon bracket arr comma quote rec show ?thesis
      by (subst object_loop.simps) (simp add: kv a)
  qed
  with shape body show ?case
    by simp
qed

text \<open>\<^verbatim>\<open>dict(pairs)\<close> of pairs with distinct keys has these pairs, in their order.\<close>

lemma dict_set_fresh: "k \<notin> fst ` set d \<Longrightarrow> dict_set d k v = d @ [(k, v)]"
  by (induction d) auto

lemma fold_dict_set_distinct:
  "distinct (map fst (d @ pairs)) \<Longrightarrow> fold (\<lambda>(k, v) d. dict_set d k v) pairs d = d @ pairs"
proof (induction pairs arbitrary: d)
  case Nil
  then show ?case by simp
next
  case (Cons kv pairs)
  obtain k v where kv: "kv = (k, v)"
    by (cases kv)
  from Cons.prems have "k \<notin> fst ` set d"
    by (auto simp: kv)
  then have "dict_set d k v = d @ [(k, v)]"
    by (rule dict_set_fresh)
  moreover from Cons.prems have "distinct (map fst ((d @ [(k, v)]) @ pairs))"
    by (simp add: kv)
  ultimately show ?case
    using Cons.IH [of "d @ [(k, v)]"] by (simp add: kv)
qed

lemma dict_of_pairs_distinct: "distinct (map fst pairs) \<Longrightarrow> dict_of_pairs pairs = pairs"
  using fold_dict_set_distinct [of "[]" pairs] by (simp add: dict_of_pairs_def)

lemma JSONObject_iterencode_dict:
  assumes "distinct (map fst idx)"
  shows "\<exists>body. iterencode_dict 0 idx @ rest = CHR ''{'' # body \<and>
    JSONObject body = Some (idx, rest)"
proof (cases "idx = []")
  case True
  then show ?thesis
    by (simp add: iterencode_dict_def JSONObject_def skip_ws_def json_ws_def)
next
  case False
  from object_loop_join [OF False, of rest "[]"] obtain body where
    shape: "join ('','' @ newline_indent 1) (map (encode_item 1) idx) @ newline_indent 0 @
      CHR ''}'' # rest = CHR 0x22 # body"
    and loop: "object_loop [] body = Some (idx, rest)"
    by auto
  have "skip_ws (newline_indent 1 @ CHR 0x22 # body) = CHR 0x22 # body"
    by (rule skip_ws_newline_indent) (simp add: json_ws_def)
  with loop have "JSONObject (newline_indent 1 @ CHR 0x22 # body) = Some (idx, rest)"
    by (simp add: JSONObject_def dict_of_pairs_distinct [OF assms])
  moreover have "iterencode_dict 0 idx @ rest = CHR ''{'' # newline_indent 1 @ CHR 0x22 # body"
    using False shape by (simp add: iterencode_dict_def)
  ultimately show ?thesis
    by simp
qed

lemma json_load_dump:
  assumes "distinct (map fst idx)"
  shows "json_load (json_dump idx) = Some idx"
proof -
  from JSONObject_iterencode_dict [OF assms, of "[]"] obtain body where
    "iterencode_dict 0 idx = CHR ''{'' # body" and "JSONObject body = Some (idx, [])"
    by auto
  then show ?thesis
    by (simp add: json_load_def json_dump_def skip_ws_def json_ws_def)
qed

text \<open>The index that \<open>build_index\<close> builds has every term once.\<close>

lemma dict_set_keys:
  "map fst (dict_set d k v) = (if k \<in> fst ` set d then map fst d else map fst d @ [k])"
proof (induction d)
  case Nil
  then show ?case by simp
next
  case (Cons kv d)
  then show ?case
    by (cases kv) force
qed

lemma add_posting_distinct:
  "distinct (map fst idx) \<Longrightarrow> distinct (map fst (add_posting doc_id word idx))"
  by (auto simp: add_posting_def Let_def dict_set_keys dict_contains_def dict_keys_def)

lemma fold_add_posting_distinct:
  "distinct (map fst idx) \<Longrightarrow> distinct (map fst (fold (add_posting doc_id) ws idx))"
  by (induction ws arbitrary: idx) (simp_all add: add_posting_distinct)

lemma index_row_distinct:
  "distinct (map fst (Indexer.inverted_index self)) \<Longrightarrow>
   distinct (map fst (Indexer.inverted_index (index_row word_tokenize self row)))"
  by (simp add: index_row_def Let_def fold_add_posting_distinct)

lemma fold_index_row_distinct:
  "distinct (map fst (Indexer.inverted_index self)) \<Longrightarrow>
   distinct (map fst (Indexer.inverted_index
     (fold (\<lambda>row self. index_row word_tokenize self row) rows self)))"
  by (induction rows arbitrary: self) (simp_all add: index_row_distinct)

lemma index_row_conn: "Indexer.conn (index_row word_tokenize self row) = Indexer.conn self"
  by (simp add: index_row_def Let_def)

lemma build_index_distinct:
  "distinct (map fst (Indexer.inverted_index (build_index word_tokenize
     (Indexer_init stopwords_english db))))"
  unfolding build_index_def
  by (rule fold_index_row_distinct) (simp add: Indexer_init_def)


text \<open>
  C9. For every built inverted index, loading the index file that \<open>save_index\<close> has
  written yields the index that was saved, with the same terms in the same order and for
  each term the same posting list: \<open>json_load\<close> returns it, and it is the index of the
  \<open>Searcher\<close> that \<^verbatim>\<open>__init__\<close> makes from the file.
\<close>

theorem load_of_saved_index:
  "json_load (save_index (build_index word_tokenize (Indexer_init stopwords_english db))) =
     Some (Indexer.inverted_index
             (build_index word_tokenize (Indexer_init stopwords_english db))) \<and>
   map_option Searcher.inverted_index
     (Searcher_open stopwords_english' db'
        (save_index (build_index word_tokenize (Indexer_init stopwords_english db)))) =
     Some (Indexer.inverted_index
             (build_index word_tokenize (Indexer_init stopwords_english db)))"
  using json_load_dump [OF build_index_distinct, of word_tokenize stopwords_english db]
  by (simp add: save_index_def Searcher_open_def Searcher_init_def)

end
